theory Spec2Isabelle
  imports Main
begin

section \<open>ZPromise: a Promises/A+ implementation (src/core.js)\<close>

text \<open>
  The development embeds \<^verbatim>\<open>src/core.js\<close>: the class \<^verbatim>\<open>ZPromise\<close> with its
  constructor, its two settlement methods \<^verbatim>\<open>resolve\<close> and \<^verbatim>\<open>reject\<close>, the method
  \<^verbatim>\<open>then\<close>, and the free function \<^verbatim>\<open>resolveNextPromise\<close>.

  JavaScript objects live in a heap and are compared by identity, closures capture
  variables, and \<^verbatim>\<open>setTimeout\<close> hands a closure to a scheduler. The embedding makes
  all of this explicit:
  \<^item> a ZPromise instance is an address into a heap of records;
  \<^item> every closure that the module creates is a constructor of a datatype, holding
    what the closure captures;
  \<^item> the local variable \<^verbatim>\<open>called\<close> of \<^verbatim>\<open>resolveNextPromise\<close>, shared by two closures
    and a catch block, is a cell in a store of flags;
  \<^item> \<^verbatim>\<open>setTimeout\<close> appends a task to a first-in first-out list of timers, and one
    scheduler turn runs the first task;
  \<^item> a thrown exception is the outcome \<open>Thrown\<close> of a call;
  \<^item> code that the module only calls (executors, reactions, the \<^verbatim>\<open>then\<close> function
    of a foreign object) is a script: a list of calls followed by a return or a throw.
\<close>

subsection \<open>Values\<close>

type_synonym addr = nat
type_synonym cell = nat
type_synonym oid = nat

text \<open>
  The two bound methods that the constructor makes at core.js:151,
  \<^verbatim>\<open>this.resolve.bind(this)\<close> and \<^verbatim>\<open>this.reject.bind(this)\<close>. The parameters
  \<^verbatim>\<open>resolve\<close> and \<^verbatim>\<open>reject\<close> of \<^verbatim>\<open>resolveNextPromise\<close> have this type:
  the function is private to the module, and each of its six call sites passes the
  executor arguments of a \<^verbatim>\<open>then\<close> call.
\<close>

datatype bound = BoundResolve addr | BoundReject addr

text \<open>
  JavaScript values. \<open>Object\<close>, \<open>Array\<close> and \<open>Function\<close> are foreign values with an
  identity and a \<^verbatim>\<open>then\<close> property, which is read through a getter that either
  throws or gives a value (a property that is absent gives \<open>Undefined\<close>). A \<open>Function\<close>
  has a script as its body. \<open>TaggedFunction t\<close> is a function whose tag under
  \<^verbatim>\<open>Object.prototype.toString\<close> is \<open>t\<close>: a function that carries its own
  \<^verbatim>\<open>Symbol.toStringTag\<close> (async and generator functions have such a tag too,
  \<^verbatim>\<open>AsyncFunction\<close> and \<^verbatim>\<open>GeneratorFunction\<close>); \<^verbatim>\<open>typeof\<close> gives
  \<^verbatim>\<open>'function'\<close> for it and it is called like any function.
  \<open>TypeError\<close> is an error object with its message. The last
  four constructors are the closures of the module:
  \<^item> \<open>Bound\<close>: a bound settlement method (core.js:151);
  \<^item> \<open>Reenter p resolve reject\<close>: the arrow function of core.js:46;
  \<^item> \<open>OnInner c p resolve reject\<close>: the first arrow function of core.js:75-80, with
    the cell \<open>c\<close> of its \<^verbatim>\<open>called\<close> variable;
  \<^item> \<open>OnErr c reject\<close>: the second one, core.js:81-86.
\<close>

datatype val =
    Undefined
  | Null
  | Boolean bool
  | Number int
  | String string
  | TypeError string
  | ZPromise addr
  | Object oid getter
  | Array oid getter
  | Function oid getter "stmt list" final
  | TaggedFunction string oid getter "stmt list" final
  | Bound bound
  | Reenter addr bound bound
  | OnInner cell addr bound bound
  | OnErr cell bound
and getter = Throws val | Gives val
and stmt =
    CallFst val
  | CallSnd val
  | CallLit val val
and final = Return val | Throw val

datatype outcome = Returned val | Thrown val

text \<open>\<^verbatim>\<open>Object.prototype.toString.call(val)\<close>, core.js:6-8.\<close>

fun getType :: "val \<Rightarrow> string" where
  "getType Undefined = ''[object Undefined]''"
| "getType Null = ''[object Null]''"
| "getType (Boolean b) = ''[object Boolean]''"
| "getType (Number n) = ''[object Number]''"
| "getType (String t) = ''[object String]''"
| "getType (TypeError m) = ''[object Error]''"
| "getType (ZPromise a) = ''[object Object]''"
| "getType (Object i g) = ''[object Object]''"
| "getType (Array i g) = ''[object Array]''"
| "getType (Function i g b f) = ''[object Function]''"
| "getType (TaggedFunction t i g b f) = ''[object '' @ t @ '']''"
| "getType (Bound b) = ''[object Function]''"
| "getType (Reenter p rs rj) = ''[object Function]''"
| "getType (OnInner c p rs rj) = ''[object Function]''"
| "getType (OnErr c rj) = ''[object Function]''"

text \<open>The operator \<^verbatim>\<open>typeof\<close>.\<close>

fun typeof :: "val \<Rightarrow> string" where
  "typeof Undefined = ''undefined''"
| "typeof Null = ''object''"
| "typeof (Boolean b) = ''boolean''"
| "typeof (Number n) = ''number''"
| "typeof (String t) = ''string''"
| "typeof (TypeError m) = ''object''"
| "typeof (ZPromise a) = ''object''"
| "typeof (Object i g) = ''object''"
| "typeof (Array i g) = ''object''"
| "typeof (Function i g b f) = ''function''"
| "typeof (TaggedFunction t i g b f) = ''function''"
| "typeof (Bound b) = ''function''"
| "typeof (Reenter p rs rj) = ''function''"
| "typeof (OnInner c p rs rj) = ''function''"
| "typeof (OnErr c rj) = ''function''"

subsection \<open>The heap of promises, the timers and the trace\<close>

datatype pstate = pending | fulfilled | rejected

text \<open>
  The closure given to \<^verbatim>\<open>setTimeout\<close> at core.js:197, 224, 248 and 263: it captures
  \<^verbatim>\<open>this\<close>, the handler, the new promise \<^verbatim>\<open>p\<close> and the executor arguments
  \<^verbatim>\<open>resolve\<close> and \<^verbatim>\<open>reject\<close>. The closures at 197 and 248 have the same body, and
  so have those at 224 and 263.
\<close>

datatype task =
    FulfilledTask addr val addr bound bound
  | RejectedTask addr val addr bound bound

text \<open>An entry of a reaction queue (core.js:243, 262): a closure that calls \<^verbatim>\<open>setTimeout\<close>.\<close>

datatype callback = SetTimeout task

record zpromise =
  PromiseState :: pstate
  PromiseResult :: val
  onFulfilledCallbacks :: "callback list"
  onRejectedCallbacks :: "callback list"

text \<open>
  What a run leaves in the trace: a read of the \<^verbatim>\<open>then\<close> property of a foreign
  value, and a call of a foreign function, with its receiver and its first argument.
\<close>

datatype event = ReadThen val | Invoked val val val

record state =
  heap :: "addr \<Rightarrow> zpromise option"
  nextAddr :: addr
  called :: "cell \<Rightarrow> bool"
  nextCell :: cell
  timers :: "task list"
  events :: "event list"

definition setTimeout :: "task \<Rightarrow> state \<Rightarrow> state" where
  "setTimeout t s = s\<lparr>timers := timers s @ [t]\<rparr>"

fun invoke :: "callback \<Rightarrow> state \<Rightarrow> state" where
  "invoke (SetTimeout t) s = setTimeout t s"

text \<open>\<^verbatim>\<open>callbacks.forEach((callback) => callback())\<close>\<close>

fun forEach :: "callback list \<Rightarrow> state \<Rightarrow> state" where
  "forEach [] s = s"
| "forEach (cb # cbs) s = forEach cbs (invoke cb s)"

subsection \<open>Settlement: \<^verbatim>\<open>resolve\<close> and \<^verbatim>\<open>reject\<close> (core.js:162-185)\<close>

definition resolve :: "addr \<Rightarrow> val \<Rightarrow> state \<Rightarrow> state" where
  "resolve this data s =
     (case heap s this of
        None \<Rightarrow> s
      | Some r \<Rightarrow>
          if PromiseState r = pending then
            forEach (onFulfilledCallbacks r)
              (s\<lparr>heap := (heap s)(this \<mapsto> r\<lparr>PromiseState := fulfilled, PromiseResult := data\<rparr>)\<rparr>)
          else s)"

definition reject :: "addr \<Rightarrow> val \<Rightarrow> state \<Rightarrow> state" where
  "reject this reason s =
     (case heap s this of
        None \<Rightarrow> s
      | Some r \<Rightarrow>
          if PromiseState r = pending then
            forEach (onRejectedCallbacks r)
              (s\<lparr>heap := (heap s)(this \<mapsto> r\<lparr>PromiseState := rejected, PromiseResult := reason\<rparr>)\<rparr>)
          else s)"

text \<open>Calling a bound method.\<close>

fun settle :: "bound \<Rightarrow> val \<Rightarrow> state \<Rightarrow> state" where
  "settle (BoundResolve a) v s = resolve a v s"
| "settle (BoundReject a) v s = reject a v s"

subsection \<open>\<^verbatim>\<open>then\<close> (core.js:193-280)\<close>

definition stateOf :: "state \<Rightarrow> addr \<Rightarrow> pstate option" where
  "stateOf s a = map_option PromiseState (heap s a)"

definition resultOf :: "state \<Rightarrow> addr \<Rightarrow> val" where
  "resultOf s a = (case heap s a of None \<Rightarrow> Undefined | Some r \<Rightarrow> PromiseResult r)"

text \<open>The four field initialisations of the constructor, core.js:145-148.\<close>

definition fresh :: zpromise where
  "fresh = \<lparr>PromiseState = pending, PromiseResult = Null,
            onFulfilledCallbacks = [], onRejectedCallbacks = []\<rparr>"

definition alloc :: "state \<Rightarrow> addr \<times> state" where
  "alloc s = (nextAddr s, s\<lparr>heap := (heap s)(nextAddr s \<mapsto> fresh), nextAddr := Suc (nextAddr s)\<rparr>)"

definition pushFulfilled :: "addr \<Rightarrow> callback \<Rightarrow> state \<Rightarrow> state" where
  "pushFulfilled a cb s =
     (case heap s a of
        None \<Rightarrow> s
      | Some r \<Rightarrow> s\<lparr>heap := (heap s)(a \<mapsto> r\<lparr>onFulfilledCallbacks := onFulfilledCallbacks r @ [cb]\<rparr>)\<rparr>)"

definition pushRejected :: "addr \<Rightarrow> callback \<Rightarrow> state \<Rightarrow> state" where
  "pushRejected a cb s =
     (case heap s a of
        None \<Rightarrow> s
      | Some r \<Rightarrow> s\<lparr>heap := (heap s)(a \<mapsto> r\<lparr>onRejectedCallbacks := onRejectedCallbacks r @ [cb]\<rparr>)\<rparr>)"

text \<open>
  The executor of core.js:195-277 only schedules or queues, it calls neither of its
  arguments and cannot throw, so the constructor's catch block is not reached. The three
  \<^verbatim>\<open>if\<close> statements are run one after the other, as in the source.
\<close>

definition then' :: "addr \<Rightarrow> val \<Rightarrow> val \<Rightarrow> state \<Rightarrow> addr \<times> state" where
  "then' this onFulfilled onRejected s =
     (let (p, s0) = alloc s;
          res = BoundResolve p;
          rej = BoundReject p;
          s1 = (if stateOf s0 this = Some fulfilled
                then setTimeout (FulfilledTask this onFulfilled p res rej) s0 else s0);
          s2 = (if stateOf s1 this = Some rejected
                then setTimeout (RejectedTask this onRejected p res rej) s1 else s1);
          s3 = (if stateOf s2 this = Some pending
                then pushRejected this (SetTimeout (RejectedTask this onRejected p res rej))
                       (pushFulfilled this (SetTimeout (FulfilledTask this onFulfilled p res rej)) s2)
                else s2)
      in (p, s3))"

subsection \<open>The Resolution Procedure (core.js:17-106) and calls\<close>

text \<open>\<^verbatim>\<open>x instanceof ZPromise\<close>, with the address of the instance.\<close>

fun instanceofZPromise :: "val \<Rightarrow> addr option" where
  "instanceofZPromise (ZPromise a) = Some a"
| "instanceofZPromise x = None"

definition readThen :: "val \<Rightarrow> getter" where
  "readThen x =
     (case x of
        Object i g \<Rightarrow> g
      | Array i g \<Rightarrow> g
      | Function i g b f \<Rightarrow> g
      | TaggedFunction t i g b f \<Rightarrow> g
      | _ \<Rightarrow> Gives Undefined)"

definition logEvent :: "event \<Rightarrow> state \<Rightarrow> state" where
  "logEvent e s = s\<lparr>events := events s @ [e]\<rparr>"

definition newCell :: "state \<Rightarrow> cell \<times> state" where
  "newCell s = (nextCell s, s\<lparr>called := (called s)(nextCell s := False), nextCell := Suc (nextCell s)\<rparr>)"

definition setCalled :: "cell \<Rightarrow> state \<Rightarrow> state" where
  "setCalled c s = s\<lparr>called := (called s)(c := True)\<rparr>"

text \<open>
  core.js:48-58: the property \<^verbatim>\<open>x.then\<close> is read into the local variable
  \<^verbatim>\<open>thenFunc\<close>. When the getter throws, \<^verbatim>\<open>reject\<close> is called and the variable keeps
  its initial value \<^verbatim>\<open>undefined\<close>; the function does not return there.
\<close>

definition getThen :: "val \<Rightarrow> bound \<Rightarrow> state \<Rightarrow> val \<times> state" where
  "getThen x rej s =
     (let s1 = logEvent (ReadThen x) s
      in case readThen x of
           Throws error \<Rightarrow> (Undefined, settle rej error s1)
         | Gives v \<Rightarrow> (v, s1))"

text \<open>
  core.js:68-98: the \<^verbatim>\<open>try\<close> statement around the call of \<^verbatim>\<open>thenFunc\<close>, applied to
  what the call gave. \<^verbatim>\<open>resolveNextPromise\<close> returns \<^verbatim>\<open>undefined\<close> either way.
\<close>

fun catchThen :: "cell \<Rightarrow> bound \<Rightarrow> outcome \<times> state \<Rightarrow> outcome \<times> state" where
  "catchThen c rej (Returned u, s) = (Returned Undefined, s)"
| "catchThen c rej (Thrown error, s) =
     (if called s c then (Returned Undefined, s)
      else (Returned Undefined, settle rej error (setCalled c s)))"

function (sequential)
  resolveNextPromise :: "addr \<Rightarrow> val \<Rightarrow> bound \<Rightarrow> bound \<Rightarrow> state \<Rightarrow> outcome \<times> state"
  and call :: "val \<Rightarrow> val \<Rightarrow> val \<Rightarrow> val \<Rightarrow> state \<Rightarrow> outcome \<times> state"
  and exec :: "stmt list \<Rightarrow> final \<Rightarrow> val \<Rightarrow> val \<Rightarrow> state \<Rightarrow> outcome \<times> state"
where
  "resolveNextPromise p x res rej s =
     (if ZPromise p = x then (Thrown (TypeError ''Chaining cycle detected for promise''), s)
      else case instanceofZPromise x of
        Some a \<Rightarrow>
          (Returned Undefined, snd (then' a (Reenter p res rej) (Bound rej) s))
      | None \<Rightarrow>
          if getType x = ''[object Object]'' \<or> getType x = ''[object Function]'' then
            (let (thenFunc, s2) = getThen x rej s
             in if getType thenFunc = ''[object Function]'' then
                  (let (c, s3) = newCell s2
                   in catchThen c rej
                        (call thenFunc x (OnInner c p res rej) (OnErr c rej) s3))
                else (Returned Undefined, settle res x s2))
          else (Returned Undefined, settle res x s))"
| "call (Function i g body fin) this a b s =
     exec body fin a b (logEvent (Invoked (Function i g body fin) this a) s)"
| "call (TaggedFunction t i g body fin) this a b s =
     exec body fin a b (logEvent (Invoked (TaggedFunction t i g body fin) this a) s)"
| "call (Bound f) this a b s = (Returned Undefined, settle f a s)"
| "call (Reenter p res rej) this a b s = resolveNextPromise p a res rej s"
| "call (OnInner c p res rej) this a b s =
     (if called s c then (Returned Undefined, s)
      else resolveNextPromise p a res rej (setCalled c s))"
| "call (OnErr c rej) this a b s =
     (if called s c then (Returned Undefined, s)
      else (Returned Undefined, settle rej a (setCalled c s)))"
| "call f this a b s = (Thrown (TypeError ''not a function''), s)"
| "exec [] (Return v) a b s = (Returned v, s)"
| "exec [] (Throw v) a b s = (Thrown v, s)"
| "exec (st # rest) fin a b s =
     (case (case st of
              CallFst v \<Rightarrow> call a Undefined v Undefined s
            | CallSnd v \<Rightarrow> call b Undefined v Undefined s
            | CallLit f v \<Rightarrow> call f Undefined v Undefined s) of
        (Returned u, s') \<Rightarrow> exec rest fin a b s'
      | (Thrown error, s') \<Rightarrow> (Thrown error, s'))"
  by pat_completeness auto

termination
proof -
  have smaller: "size thenFunc < size x"
    if "(thenFunc, s2) = getThen x rej s" and "getType thenFunc = ''[object Function]''"
    for thenFunc s2 x rej s
    using that
    by (cases x) (auto simp: getThen_def readThen_def Let_def split: getter.splits)
  show ?thesis
    by (relation "measure (\<lambda>z. case z of
          Inl (p, x, res, rej, s) \<Rightarrow> 2 * size x
        | Inr (Inl (f, this, a, b, s)) \<Rightarrow> 2 * (size f + size a + size b) + 1
        | Inr (Inr (body, fin, a, b, s)) \<Rightarrow> 2 * (size_list size body + size a + size b) + 1)")
      (auto split: stmt.splits dest: smaller)
qed

subsection \<open>The scheduled reactions (core.js:197-220, 224-239, 248-259, 263-274)\<close>

fun runTask :: "task \<Rightarrow> state \<Rightarrow> state" where
  "runTask (FulfilledTask this onFulfilled p res rej) s =
     (if typeof onFulfilled = ''function'' then
        (case call onFulfilled Undefined (resultOf s this) Undefined s of
           (Thrown error, s1) \<Rightarrow> settle rej error s1
         | (Returned resultX, s1) \<Rightarrow>
             (case resolveNextPromise p resultX res rej s1 of
                (Thrown error, s2) \<Rightarrow> settle rej error s2
              | (Returned u, s2) \<Rightarrow> s2))
      else settle res (resultOf s this) s)"
| "runTask (RejectedTask this onRejected p res rej) s =
     (if typeof onRejected = ''function'' then
        (case call onRejected Undefined (resultOf s this) Undefined s of
           (Thrown error, s1) \<Rightarrow> settle rej error s1
         | (Returned reasonX, s1) \<Rightarrow>
             (case resolveNextPromise p reasonX res rej s1 of
                (Thrown error, s2) \<Rightarrow> settle rej error s2
              | (Returned u, s2) \<Rightarrow> s2))
      else settle rej (resultOf s this) s)"

text \<open>One turn of the scheduler: the oldest timer fires.\<close>

definition tick :: "state \<Rightarrow> state" where
  "tick s = (case timers s of [] \<Rightarrow> s | t # ts \<Rightarrow> runTask t (s\<lparr>timers := ts\<rparr>))"

fun ticks :: "nat \<Rightarrow> state \<Rightarrow> state" where
  "ticks 0 s = s"
| "ticks (Suc n) s = ticks n (tick s)"

subsection \<open>The constructor (core.js:142-155)\<close>

definition construct :: "val \<Rightarrow> state \<Rightarrow> outcome \<times> state" where
  "construct executor s =
     (if typeof executor \<noteq> ''function''
      then (Thrown (TypeError ''Promise executor is not a function''), s)
      else
        (let (this, s0) = alloc s
         in case call executor Undefined (Bound (BoundResolve this)) (Bound (BoundReject this)) s0 of
              (Thrown error, s1) \<Rightarrow> (Returned (ZPromise this), reject this error s1)
            | (Returned u, s1) \<Rightarrow> (Returned (ZPromise this), s1)))"

subsection \<open>What a program around the module can do\<close>

text \<open>
  A client constructs promises, registers reactions, calls a function value that it
  holds (a bound settlement method it kept from an executor, a continuation that a
  foreign \<^verbatim>\<open>then\<close> kept), and lets the scheduler take a turn.
\<close>

datatype action = New val | Then addr val val | Call val val | Tick

fun step :: "action \<Rightarrow> state \<Rightarrow> state" where
  "step (New executor) s = snd (construct executor s)"
| "step (Then a onFulfilled onRejected) s = snd (then' a onFulfilled onRejected s)"
| "step (Call f v) s = snd (call f Undefined v Undefined s)"
| "step Tick s = tick s"

fun steps :: "action list \<Rightarrow> state \<Rightarrow> state" where
  "steps [] s = s"
| "steps (a # as) s = steps as (step a s)"

definition init :: state where
  "init = \<lparr>heap = Map.empty, nextAddr = 0, called = (\<lambda>c. False), nextCell = 0,
           timers = [], events = []\<rparr>"

subsection \<open>Vocabulary of the properties\<close>

text \<open>
  \<open>evolves s s'\<close>: no address and no cell is given out twice, a promise that is
  settled in \<open>s\<close> has the same record in \<open>s'\<close>, and a \<^verbatim>\<open>called\<close> flag that is set
  in \<open>s\<close> is set in \<open>s'\<close>. \<open>appends s s'\<close>: timers and trace have only grown at the end.
  \<open>taskOf\<close> is the task that a queue entry hands to \<^verbatim>\<open>setTimeout\<close>.
\<close>

definition evolves :: "state \<Rightarrow> state \<Rightarrow> bool" where
  "evolves s s' \<longleftrightarrow>
     nextAddr s \<le> nextAddr s' \<and> nextCell s \<le> nextCell s' \<and>
     (\<forall>a r. a < nextAddr s \<longrightarrow> heap s a = Some r \<longrightarrow> PromiseState r \<noteq> pending \<longrightarrow> heap s' a = Some r) \<and>
     (\<forall>c. c < nextCell s \<longrightarrow> called s c \<longrightarrow> called s' c)"

fun taskOf :: "callback \<Rightarrow> task" where
  "taskOf (SetTimeout t) = t"

definition appends :: "state \<Rightarrow> state \<Rightarrow> bool" where
  "appends s s' \<longleftrightarrow>
     (\<exists>ts. timers s' = timers s @ ts) \<and> (\<exists>es. events s' = events s @ es)"

subsection \<open>Example programs\<close>

text \<open>
  The executor \<^verbatim>\<open>(resolve, reject) => { resolve(v) }\<close>, and the state after
  \<^verbatim>\<open>new ZPromise((resolve, reject) => { resolve(1) })\<close> in an empty heap.
\<close>

definition resolvesWith :: "val \<Rightarrow> val" where
  "resolvesWith v = Function 0 (Gives Undefined) [CallFst v] (Return Undefined)"

definition fulfilledOne :: state where
  "fulfilledOne = steps [New (resolvesWith (Number 1))] init"

text \<open>
  The function number \<open>i\<close> that does nothing but return \<open>v\<close>; the states after
  \<^verbatim>\<open>new ZPromise(() => {})\<close> and after
  \<^verbatim>\<open>new ZPromise((resolve, reject) => { reject('E') })\<close> in an empty heap.
\<close>

definition returns :: "oid \<Rightarrow> val \<Rightarrow> val" where
  "returns i v = Function i (Gives Undefined) [] (Return v)"

definition pendingOne :: state where
  "pendingOne = steps [New (returns 0 Undefined)] init"

definition rejectedOne :: state where
  "rejectedOne = steps [New (Function 0 (Gives Undefined) [CallSnd (String ''E'')] (Return Undefined))] init"

text \<open>
  \<open>isContCall\<close>: a statement that calls one of the two parameters, which are the two
  continuations when the script is the \<^verbatim>\<open>then\<close> of a thenable.
  \<open>thenEntry x F p res rej s\<close>: the state in which the body of \<open>F\<close>, read from
  \<^verbatim>\<open>x.then\<close>, starts to run: the read and the call are in the trace, and the flag
  \<^verbatim>\<open>called\<close>, in the cell \<open>nextCell s\<close>, is false.
  \<open>callsResFive\<close>: the object
  \<^verbatim>\<open>{ then(res, rej) { res(5); res(6); rej('no'); throw 'late' } }\<close>.
  \<open>readsBelow n s s'\<close>: the trace has grown at the end, and the new reads of a
  \<^verbatim>\<open>then\<close> property are on values of size at most \<open>n\<close>.
\<close>

fun isContCall :: "stmt \<Rightarrow> bool" where
  "isContCall (CallFst v) = True"
| "isContCall (CallSnd v) = True"
| "isContCall (CallLit f v) = False"

definition thenEntry :: "val \<Rightarrow> val \<Rightarrow> addr \<Rightarrow> bound \<Rightarrow> bound \<Rightarrow> state \<Rightarrow> state" where
  "thenEntry x F p res rej s =
     logEvent (Invoked F x (OnInner (nextCell s) p res rej))
       (snd (newCell (logEvent (ReadThen x) s)))"

definition callsResFive :: val where
  "callsResFive =
     Object 5 (Gives (Function 6 (Gives Undefined)
       [CallFst (Number 5), CallFst (Number 6), CallSnd (String ''no'')]
       (Throw (String ''late''))))"

definition readsBelow :: "nat \<Rightarrow> state \<Rightarrow> state \<Rightarrow> bool" where
  "readsBelow n s s' \<longleftrightarrow>
     (\<exists>es. events s' = events s @ es \<and> (\<forall>y. ReadThen y \<in> set es \<longrightarrow> size y \<le> n))"

text \<open>
  \<open>links s n x y\<close>: unwrapping \<open>x\<close> \<open>n\<close> times gives \<open>y\<close>; each of the \<open>n\<close> values
  on the way is a ZPromise that is fulfilled in \<open>s\<close>, and the next value is its
  result. \<open>nonThenable v\<close>: \<open>v\<close> is no ZPromise, and either its type tag is not that
  of an object or a function, or reading its \<^verbatim>\<open>then\<close> gives a value whose tag is not
  that of a function; the Resolution Procedure fulfils with \<open>v\<close> itself (core.js:103,
  105). \<open>settlesAs y\<close>: how one run of the Resolution Procedure on the value \<open>y\<close>,
  which is no ZPromise, settles a pending target: fulfilled with \<open>y\<close> when \<open>y\<close> is
  not a thenable, rejected with what the getter of \<^verbatim>\<open>then\<close> throws, and for a thenable
  what the first action of its \<^verbatim>\<open>then\<close> gives (\<open>thenSettles\<close>: a call of the resolve
  continuation with a value that is not a thenable, a call of the reject continuation,
  or a throw); \<open>None\<close> where the target is not settled in that run.
  \<open>skip s\<close>: the state \<open>s\<close> with one more promise, fulfilled with \<^verbatim>\<open>undefined\<close>; it
  is what the promise made by the \<^verbatim>\<open>x.then(...)\<close> of core.js:46 ends as.
  \<open>nestedState\<close>: three promises, number 0 fulfilled with 1, number 1 pending, and
  number 2 fulfilled with promise number 1.
\<close>

fun links :: "state \<Rightarrow> nat \<Rightarrow> val \<Rightarrow> val \<Rightarrow> bool" where
  "links s 0 x y = (x = y)"
| "links s (Suc n) x y =
     (case instanceofZPromise x of
        None \<Rightarrow> False
      | Some c \<Rightarrow> c < nextAddr s \<and> stateOf s c = Some fulfilled \<and> links s n (resultOf s c) y)"

definition skip :: "state \<Rightarrow> state" where
  "skip s = resolve (nextAddr s) Undefined (snd (alloc s))"

definition nonThenable :: "val \<Rightarrow> bool" where
  "nonThenable v \<longleftrightarrow>
     instanceofZPromise v = None \<and>
     ((getType v \<noteq> ''[object Object]'' \<and> getType v \<noteq> ''[object Function]'') \<or>
      (case readThen v of Throws e \<Rightarrow> False | Gives F \<Rightarrow> getType F \<noteq> ''[object Function]''))"

fun thenSettles :: "val \<Rightarrow> (pstate \<times> val) option" where
  "thenSettles (Function i g (CallFst v # rest) fin) =
     (if list_all isContCall rest \<and> nonThenable v then Some (fulfilled, v) else None)"
| "thenSettles (Function i g (CallSnd v # rest) fin) =
     (if list_all isContCall rest then Some (rejected, v) else None)"
| "thenSettles (Function i g [] (Throw v)) = Some (rejected, v)"
| "thenSettles F = None"

definition settlesAs :: "val \<Rightarrow> (pstate \<times> val) option" where
  "settlesAs y =
     (if instanceofZPromise y \<noteq> None then None
      else if getType y \<noteq> ''[object Object]'' \<and> getType y \<noteq> ''[object Function]''
      then Some (fulfilled, y)
      else case readThen y of
             Throws e \<Rightarrow> Some (rejected, e)
           | Gives F \<Rightarrow>
               if getType F \<noteq> ''[object Function]'' then Some (fulfilled, y) else thenSettles F)"

definition nestedState :: state where
  "nestedState =
     steps [New (resolvesWith (Number 1)), New (returns 0 Undefined),
            New (resolvesWith (ZPromise 1))] init"

text \<open>
  \<open>resolvesSelf\<close>: the object \<^verbatim>\<open>{ then(res) { res(p) } }\<close>, where \<^verbatim>\<open>p\<close> is promise
  number 1. \<open>arrayWithThen\<close>: an array \<^verbatim>\<open>arr\<close> after
  \<^verbatim>\<open>arr.then = function (res) { res(5) }\<close>; its type tag is \<^verbatim>\<open>[object Array]\<close>.
  \<open>objectWithThen\<close>: a plain object with the same \<^verbatim>\<open>then\<close>.
\<close>

definition resolvesSelf :: val where
  "resolvesSelf =
     Object 5 (Gives (Function 2 (Gives Undefined) [CallFst (ZPromise 1)] (Return Undefined)))"

definition arrayWithThen :: val where
  "arrayWithThen =
     Array 7 (Gives (Function 8 (Gives Undefined) [CallFst (Number 5)] (Return Undefined)))"

definition objectWithThen :: val where
  "objectWithThen =
     Object 7 (Gives (Function 8 (Gives Undefined) [CallFst (Number 5)] (Return Undefined)))"

text \<open>
  \<open>plainObject\<close>: the object \<^verbatim>\<open>{}\<close>. \<open>keepsContinuations\<close>: a thenable whose
  \<^verbatim>\<open>then\<close> returns without calling either continuation, as one that keeps them for
  later does. \<open>asyncThenable\<close>: the object \<^verbatim>\<open>{ then: async function (res) { res(5) } }\<close>;
  the tag of its \<^verbatim>\<open>then\<close> is \<^verbatim>\<open>[object AsyncFunction]\<close>.
\<close>

definition plainObject :: val where
  "plainObject = Object 4 (Gives Undefined)"

definition keepsContinuations :: val where
  "keepsContinuations = Object 5 (Gives (Function 6 (Gives Undefined) [] (Return Undefined)))"

definition asyncThenable :: val where
  "asyncThenable =
     Object 7 (Gives (TaggedFunction ''AsyncFunction'' 8 (Gives Undefined)
       [CallFst (Number 5)] (Return Undefined)))"

section \<open>Properties\<close>

declare resolveNextPromise.simps [simp del]

subsection \<open>What every run preserves\<close>

lemma engine_rel:
  fixes R :: "state \<Rightarrow> state \<Rightarrow> bool"
  assumes refl: "\<And>s. R s s"
    and trans: "\<And>s s' s''. R s s' \<Longrightarrow> R s' s'' \<Longrightarrow> R s s''"
    and settle: "\<And>b v s. R s (settle b v s)"
    and log: "\<And>e s. R s (logEvent e s)"
    and cell: "\<And>s. R s (snd (newCell s))"
    and flag: "\<And>c s. R s (setCalled c s)"
    and thn: "\<And>a f g s. R s (snd (then' a f g s))"
  shows "R s (snd (resolveNextPromise p x res rej s))"
    and "R s (snd (call f this a b s))"
    and "R s (snd (exec body fin a b s))"
proof (induction p x res rej s and f this a b s and body fin a b s
    rule: resolveNextPromise_call_exec.induct)
  case (1 p x res rej s)
  have get: "R s (snd (getThen x rej s))"
    by (auto simp: getThen_def Let_def split: getter.splits intro: log trans [OF log settle])
  have catch: "R s' (snd (catchThen c rej r))" if "R s' (snd r)" for s' c r
    using that by (cases "(c, rej, r)" rule: catchThen.cases) (auto intro: trans [OF _ trans [OF flag settle]])
  show ?case
  proof (cases "ZPromise p \<noteq> x \<and> instanceofZPromise x = None \<and>
      (getType x = ''[object Object]'' \<or> getType x = ''[object Function]'') \<and>
      getType (fst (getThen x rej s)) = ''[object Function]''")
    case True
    obtain thenFunc s2 where g: "getThen x rej s = (thenFunc, s2)" by force
    obtain c s3 where n: "newCell s2 = (c, s3)" by force
    have "R s3 (snd (call thenFunc x (OnInner c p res rej) (OnErr c rej) s3))"
      by (rule 1) (use True g n in auto)
    then have "R s3 (snd (catchThen c rej (call thenFunc x (OnInner c p res rej) (OnErr c rej) s3)))"
      by (rule catch)
    moreover have "R s s2" using get g by simp
    moreover have "R s2 s3" using cell [of s2] n by simp
    ultimately show ?thesis
      using True g n by (subst resolveNextPromise.simps) (auto intro: trans)
  next
    case False
    then show ?thesis
      using get
      by (subst resolveNextPromise.simps)
        (auto simp: refl thn settle split: option.splits prod.splits intro: trans [OF _ settle])
  qed
next
  case (11 st rest fin a b s)
  then show ?case
    by (cases st) (auto split: prod.splits outcome.splits intro: trans)
qed (auto simp: refl settle intro: trans log flag trans [OF flag settle])

lemma task_rel:
  fixes R :: "state \<Rightarrow> state \<Rightarrow> bool"
  assumes refl: "\<And>s. R s s"
    and trans: "\<And>s s' s''. R s s' \<Longrightarrow> R s' s'' \<Longrightarrow> R s s''"
    and settle: "\<And>b v s. R s (settle b v s)"
    and log: "\<And>e s. R s (logEvent e s)"
    and cell: "\<And>s. R s (snd (newCell s))"
    and flag: "\<And>c s. R s (setCalled c s)"
    and thn: "\<And>a f g s. R s (snd (then' a f g s))"
  shows "R s (runTask t s)"
proof -
  note eng = engine_rel [of R, OF refl trans settle log cell flag thn]
  have reaction: "R s (case call h Undefined v Undefined s of
        (Thrown error, s1) \<Rightarrow> settle rej error s1
      | (Returned x, s1) \<Rightarrow>
          (case resolveNextPromise p x res rej s1 of
             (Thrown error, s2) \<Rightarrow> settle rej error s2
           | (Returned u, s2) \<Rightarrow> s2))" for h v s p res rej
  proof -
    obtain o1 s1 where c: "call h Undefined v Undefined s = (o1, s1)" by force
    have "R s (snd (call h Undefined v Undefined s))" by (rule eng(2))
    with c have 1: "R s s1" by simp
    show ?thesis
    proof (cases o1)
      case (Returned x)
      obtain o2 s2 where r: "resolveNextPromise p x res rej s1 = (o2, s2)" by force
      have "R s1 (snd (resolveNextPromise p x res rej s1))" by (rule eng(1))
      with r have 2: "R s1 s2" by simp
      show ?thesis
        using c r Returned trans [OF 1 2] trans [OF trans [OF 1 2] settle]
        by (cases o2) auto
    next
      case (Thrown e)
      then show ?thesis using c trans [OF 1 settle] by simp
    qed
  qed
  show ?thesis
    using reaction by (cases t) (auto simp: settle)
qed

lemma client_rel:
  fixes R :: "state \<Rightarrow> state \<Rightarrow> bool"
  assumes refl: "\<And>s. R s s"
    and trans: "\<And>s s' s''. R s s' \<Longrightarrow> R s' s'' \<Longrightarrow> R s s''"
    and settle: "\<And>b v s. R s (settle b v s)"
    and log: "\<And>e s. R s (logEvent e s)"
    and cell: "\<And>s. R s (snd (newCell s))"
    and flag: "\<And>c s. R s (setCalled c s)"
    and thn: "\<And>a f g s. R s (snd (then' a f g s))"
    and alloc: "\<And>s. R s (snd (alloc s))"
    and pop: "\<And>s ts. R s (s\<lparr>timers := ts\<rparr>)"
  shows "R s (steps acts s)"
proof -
  note eng = engine_rel [of R, OF refl trans settle log cell flag thn]
  note task = task_rel [of R, OF refl trans settle log cell flag thn]
  have tick: "R s (tick s)" for s
    by (auto simp: tick_def refl split: list.splits intro: trans [OF pop task])
  have new: "R s (snd (construct e s))" for e s
  proof -
    obtain this s0 where a: "alloc s = (this, s0)" by force
    obtain o1 s1 where c:
      "call e Undefined (Bound (BoundResolve this)) (Bound (BoundReject this)) s0 = (o1, s1)"
      by force
    have "R s (snd (alloc s))" by (rule alloc)
    with a have 0: "R s s0" by simp
    have "R s0 (snd (call e Undefined (Bound (BoundResolve this)) (Bound (BoundReject this)) s0))"
      by (rule eng(2))
    with c have 1: "R s0 s1" by simp
    have 2: "R s1 (reject this v s1)" for v
      using settle [of s1 "BoundReject this" v] by simp
    show ?thesis
      using a c trans [OF 0 1] trans [OF trans [OF 0 1] 2]
      by (cases o1) (auto simp: construct_def refl)
  qed
  have step: "R s (step act s)" for act s
    by (cases act) (auto simp: thn eng tick new)
  show ?thesis
    by (induction acts arbitrary: s) (auto simp: refl intro: trans [OF step])
qed

lemma forEach_eq: "forEach cbs s = s\<lparr>timers := timers s @ map taskOf cbs\<rparr>"
proof (induction cbs arbitrary: s)
  case Nil
  show ?case by simp
next
  case (Cons cb cbs)
  then show ?case by (cases cb) (simp add: setTimeout_def)
qed

lemma resolve_pending:
  "heap s a = Some r \<Longrightarrow> PromiseState r = pending \<Longrightarrow>
   resolve a v s = s\<lparr>heap := (heap s)(a \<mapsto> r\<lparr>PromiseState := fulfilled, PromiseResult := v\<rparr>),
                    timers := timers s @ map taskOf (onFulfilledCallbacks r)\<rparr>"
  by (simp add: resolve_def forEach_eq)

lemma reject_pending:
  "heap s a = Some r \<Longrightarrow> PromiseState r = pending \<Longrightarrow>
   reject a v s = s\<lparr>heap := (heap s)(a \<mapsto> r\<lparr>PromiseState := rejected, PromiseResult := v\<rparr>),
                   timers := timers s @ map taskOf (onRejectedCallbacks r)\<rparr>"
  by (simp add: reject_def forEach_eq)

lemma resolve_settled:
  "heap s a = Some r \<Longrightarrow> PromiseState r \<noteq> pending \<Longrightarrow> resolve a v s = s"
  by (simp add: resolve_def)

lemma reject_settled:
  "heap s a = Some r \<Longrightarrow> PromiseState r \<noteq> pending \<Longrightarrow> reject a v s = s"
  by (simp add: reject_def)

lemma evolves_refl: "evolves s s"
  by (simp add: evolves_def)

lemma evolves_trans: "evolves s s' \<Longrightarrow> evolves s' s'' \<Longrightarrow> evolves s s''"
  unfolding evolves_def by (meson le_trans less_le_trans)

lemma evolves_settle: "evolves s (settle b v s)"
  by (cases b) (auto simp: evolves_def resolve_def reject_def forEach_eq split: option.splits)

lemma evolves_log: "evolves s (logEvent e s)"
  by (simp add: evolves_def logEvent_def)

lemma evolves_cell: "evolves s (snd (newCell s))"
  by (simp add: evolves_def newCell_def)

lemma evolves_flag: "evolves s (setCalled c s)"
  by (simp add: evolves_def setCalled_def)

lemma evolves_alloc: "evolves s (snd (alloc s))"
  by (simp add: evolves_def alloc_def)

lemma evolves_pop: "evolves s (s\<lparr>timers := ts\<rparr>)"
  by (simp add: evolves_def)

lemma evolves_then: "evolves s (snd (then' a f g s))"
  by (auto simp: evolves_def then'_def alloc_def stateOf_def setTimeout_def pushFulfilled_def
      pushRejected_def Let_def split: option.splits)

lemmas evolves_engine =
  engine_rel [of evolves, OF evolves_refl evolves_trans evolves_settle evolves_log
    evolves_cell evolves_flag evolves_then]


lemma evolves_steps: "evolves s (steps acts s)"
  by (rule client_rel [of evolves, OF evolves_refl evolves_trans evolves_settle evolves_log
    evolves_cell evolves_flag evolves_then evolves_alloc evolves_pop])

lemma appends_refl: "appends s s"
  by (simp add: appends_def)

lemma appends_trans: "appends s s' \<Longrightarrow> appends s' s'' \<Longrightarrow> appends s s''"
  unfolding appends_def by auto

lemma appends_settle: "appends s (settle b v s)"
  by (cases b) (auto simp: appends_def resolve_def reject_def forEach_eq split: option.splits)

lemma appends_log: "appends s (logEvent e s)"
  by (simp add: appends_def logEvent_def)

lemma appends_cell: "appends s (snd (newCell s))"
  by (simp add: appends_def newCell_def)

lemma appends_flag: "appends s (setCalled c s)"
  by (simp add: appends_def setCalled_def)

lemma appends_then: "appends s (snd (then' a f g s))"
  by (auto simp: appends_def then'_def alloc_def stateOf_def setTimeout_def pushFulfilled_def
      pushRejected_def Let_def split: option.splits)

lemmas appends_engine =
  engine_rel [of appends, OF appends_refl appends_trans appends_settle appends_log
    appends_cell appends_flag appends_then]


lemmas appends_task =
  task_rel [of appends, OF appends_refl appends_trans appends_settle appends_log
    appends_cell appends_flag appends_then]

lemma fulfilledOne_fields:
  "heap fulfilledOne 0 = Some (fresh\<lparr>PromiseState := fulfilled, PromiseResult := Number 1\<rparr>)"
  "nextAddr fulfilledOne = 1"
  "timers fulfilledOne = []"
  by (simp_all add: fulfilledOne_def resolvesWith_def construct_def alloc_def init_def
      logEvent_def resolve_def fresh_def)

subsection \<open>Settlement happens once\<close>

text \<open>
  C1. Every ZPromise starts pending: the record that the constructor allocates is
  pending, and so is the promise that \<^verbatim>\<open>then\<close> returns. A pending promise goes to
  fulfilled by \<^verbatim>\<open>resolve\<close> and to rejected by \<^verbatim>\<open>reject\<close>, with the given
  result. Once a promise is settled, \<^verbatim>\<open>resolve\<close> and \<^verbatim>\<open>reject\<close> leave the whole
  state as it is, whoever calls the bound methods, and no sequence of client actions
  (constructions, \<^verbatim>\<open>then\<close> calls, calls of any function value, scheduler turns)
  changes its record: state and result stay what they are.
\<close>

theorem settlement_is_final:
  "stateOf (snd (alloc s)) (fst (alloc s)) = Some pending \<and>
   stateOf (snd (then' this f g s)) (fst (then' this f g s)) = Some pending \<and>
   (a < nextAddr s \<longrightarrow> heap s a = Some r \<longrightarrow>
      (PromiseState r = pending \<longrightarrow>
         stateOf (resolve a v s) a = Some fulfilled \<and> resultOf (resolve a v s) a = v \<and>
         stateOf (reject a v s) a = Some rejected \<and> resultOf (reject a v s) a = v) \<and>
      (PromiseState r \<noteq> pending \<longrightarrow>
         resolve a v s = s \<and> reject a v s = s \<and>
         call (Bound (BoundResolve a)) u v w s = (Returned Undefined, s) \<and>
         call (Bound (BoundReject a)) u v w s = (Returned Undefined, s) \<and>
         heap (steps acts s) a = Some r))"
proof -
  have "stateOf (snd (alloc s)) (fst (alloc s)) = Some pending"
    by (simp add: alloc_def stateOf_def fresh_def)
  moreover have "stateOf (snd (then' this f g s)) (fst (then' this f g s)) = Some pending"
    by (auto simp: then'_def alloc_def stateOf_def fresh_def setTimeout_def pushFulfilled_def
        pushRejected_def Let_def)
  moreover have "stateOf (resolve a v s) a = Some fulfilled \<and> resultOf (resolve a v s) a = v \<and>
      stateOf (reject a v s) a = Some rejected \<and> resultOf (reject a v s) a = v"
    if "heap s a = Some r" "PromiseState r = pending"
    using that by (simp add: resolve_pending reject_pending stateOf_def resultOf_def)
  moreover have "heap (steps acts s) a = Some r"
    if "a < nextAddr s" "heap s a = Some r" "PromiseState r \<noteq> pending"
    using evolves_steps [of s acts] that by (simp add: evolves_def)
  ultimately show ?thesis
    by (simp add: resolve_settled reject_settled)
qed

theorem settlement_is_final_witness:
  "0 < nextAddr fulfilledOne \<and>
   heap fulfilledOne 0 = Some (fresh\<lparr>PromiseState := fulfilled, PromiseResult := Number 1\<rparr>) \<and>
   PromiseState (fresh\<lparr>PromiseState := fulfilled, PromiseResult := Number 1\<rparr>) \<noteq> pending \<and>
   reject 0 (Number 2) fulfilledOne = fulfilledOne \<and>
   heap (steps [Call (Bound (BoundReject 0)) (Number 2), Then 0 Undefined Undefined, Tick] fulfilledOne) 0 =
     Some (fresh\<lparr>PromiseState := fulfilled, PromiseResult := Number 1\<rparr>)"
  using settlement_is_final [where s = fulfilledOne and a = 0
      and r = "fresh\<lparr>PromiseState := fulfilled, PromiseResult := Number 1\<rparr>"
      and v = "Number 2" and this = 0 and f = Undefined and g = Undefined
      and u = Undefined and w = Undefined
      and acts = "[Call (Bound (BoundReject 0)) (Number 2), Then 0 Undefined Undefined, Tick]"]
  by (simp add: fulfilledOne_fields del: steps.simps)

declare runTask.simps [simp del]

subsection \<open>Registering and running reactions\<close>

lemma then'_fulfilled:
  "a < nextAddr s \<Longrightarrow> stateOf s a = Some fulfilled \<Longrightarrow>
   then' a f g s =
     (nextAddr s,
      s\<lparr>heap := (heap s)(nextAddr s \<mapsto> fresh), nextAddr := Suc (nextAddr s),
        timers := timers s @
          [FulfilledTask a f (nextAddr s) (BoundResolve (nextAddr s)) (BoundReject (nextAddr s))]\<rparr>)"
  by (auto simp: then'_def alloc_def stateOf_def setTimeout_def Let_def)

lemma then'_rejected:
  "a < nextAddr s \<Longrightarrow> stateOf s a = Some rejected \<Longrightarrow>
   then' a f g s =
     (nextAddr s,
      s\<lparr>heap := (heap s)(nextAddr s \<mapsto> fresh), nextAddr := Suc (nextAddr s),
        timers := timers s @
          [RejectedTask a g (nextAddr s) (BoundResolve (nextAddr s)) (BoundReject (nextAddr s))]\<rparr>)"
  by (auto simp: then'_def alloc_def stateOf_def setTimeout_def Let_def)

lemma then'_pending:
  "a < nextAddr s \<Longrightarrow> heap s a = Some r \<Longrightarrow> PromiseState r = pending \<Longrightarrow>
   then' a f g s =
     (nextAddr s,
      s\<lparr>heap := (heap s)
          (nextAddr s \<mapsto> fresh,
           a \<mapsto> r\<lparr>onFulfilledCallbacks := onFulfilledCallbacks r @
                    [SetTimeout (FulfilledTask a f (nextAddr s) (BoundResolve (nextAddr s))
                       (BoundReject (nextAddr s)))],
                  onRejectedCallbacks := onRejectedCallbacks r @
                    [SetTimeout (RejectedTask a g (nextAddr s) (BoundResolve (nextAddr s))
                       (BoundReject (nextAddr s)))]\<rparr>),
        nextAddr := Suc (nextAddr s)\<rparr>)"
  by (auto simp: then'_def alloc_def stateOf_def pushFulfilled_def pushRejected_def Let_def fun_upd_twist)

lemma then'_events: "events (snd (then' a f g s)) = events s"
  by (auto simp: then'_def alloc_def stateOf_def setTimeout_def pushFulfilled_def
      pushRejected_def Let_def split: option.splits)

lemma settle_events: "events (settle b v s) = events s"
  by (cases b) (auto simp: resolve_def reject_def forEach_eq split: option.splits)

lemma fulfilled_reaction_trace:
  assumes "f = Function i gt body fin"
  shows "appends (logEvent (Invoked f Undefined (resultOf s a)) s)
           (runTask (FulfilledTask a f p res rej) s)"
proof -
  let ?s0 = "logEvent (Invoked f Undefined (resultOf s a)) s"
  obtain o1 s1 where c: "exec body fin (resultOf s a) Undefined ?s0 = (o1, s1)" by force
  have "appends ?s0 (snd (exec body fin (resultOf s a) Undefined ?s0))"
    by (rule appends_engine(3))
  with c have 1: "appends ?s0 s1" by simp
  show ?thesis
  proof (cases o1)
    case (Returned x)
    obtain o2 s2 where r: "resolveNextPromise p x res rej s1 = (o2, s2)" by force
    have "appends s1 (snd (resolveNextPromise p x res rej s1))" by (rule appends_engine(1))
    with r have 2: "appends s1 s2" by simp
    show ?thesis
      using assms c r Returned appends_trans [OF 1 2]
        appends_trans [OF appends_trans [OF 1 2] appends_settle]
      by (cases o2) (auto simp: runTask.simps)
  next
    case (Thrown e)
    then show ?thesis using assms c appends_trans [OF 1 appends_settle]
      by (simp add: runTask.simps)
  qed
qed

text \<open>
  C6. \<^verbatim>\<open>then\<close> calls no foreign function: the trace is the same when it returns,
  whatever the state of the receiver. When the receiver is already fulfilled or
  rejected, the reaction is handed to \<^verbatim>\<open>setTimeout\<close> and waits at the end of the
  timers. Settlement calls no handler either. The handler of a reaction registered on a
  fulfilled promise is called by the scheduler turn that follows, with the stored
  result.
\<close>

theorem reactions_are_deferred:
  "events (snd (then' a f g s)) = events s \<and>
   events (settle b v s) = events s \<and>
   (a < nextAddr s \<longrightarrow> stateOf s a = Some fulfilled \<longrightarrow>
      timers (snd (then' a f g s)) = timers s @
        [FulfilledTask a f (nextAddr s) (BoundResolve (nextAddr s)) (BoundReject (nextAddr s))]) \<and>
   (a < nextAddr s \<longrightarrow> stateOf s a = Some rejected \<longrightarrow>
      timers (snd (then' a f g s)) = timers s @
        [RejectedTask a g (nextAddr s) (BoundResolve (nextAddr s)) (BoundReject (nextAddr s))]) \<and>
   (a < nextAddr s \<longrightarrow> stateOf s a = Some fulfilled \<longrightarrow> timers s = [] \<longrightarrow>
      f = Function i gt body fin \<longrightarrow>
      (\<exists>es. events (tick (snd (then' a f g s))) =
         events s @ Invoked f Undefined (resultOf s a) # es))"
proof -
  have "\<exists>es. events (tick (snd (then' a f g s))) =
         events s @ Invoked f Undefined (resultOf s a) # es"
    if a: "a < nextAddr s" "stateOf s a = Some fulfilled" and t: "timers s = []"
      and f: "f = Function i gt body fin"
  proof -
    let ?p = "nextAddr s"
    let ?s1 = "s\<lparr>heap := (heap s)(?p \<mapsto> fresh), nextAddr := Suc ?p, timers := []\<rparr>"
    have tick: "tick (snd (then' a f g s)) =
        runTask (FulfilledTask a f ?p (BoundResolve ?p) (BoundReject ?p)) ?s1"
      using a t by (simp add: then'_fulfilled tick_def)
    have res: "resultOf ?s1 a = resultOf s a"
      using a by (simp add: resultOf_def)
    from fulfilled_reaction_trace [OF f, of ?s1 a ?p "BoundResolve ?p" "BoundReject ?p"]
    show ?thesis
      unfolding tick res by (auto simp: appends_def logEvent_def)
  qed
  then show ?thesis
    by (simp add: then'_events settle_events then'_fulfilled then'_rejected)
qed


lemma pendingOne_fields:
  "heap pendingOne 0 = Some fresh"
  "nextAddr pendingOne = 1"
  "timers pendingOne = []"
  "events pendingOne =
     [Invoked (returns 0 Undefined) Undefined (Bound (BoundResolve 0))]"
  by (simp_all add: pendingOne_def returns_def construct_def alloc_def init_def logEvent_def)


lemma fulfilledOne_more:
  "stateOf fulfilledOne 0 = Some fulfilled"
  "resultOf fulfilledOne 0 = Number 1"
  by (simp_all add: stateOf_def resultOf_def fulfilledOne_fields)

theorem reactions_are_deferred_witness:
  "0 < nextAddr fulfilledOne \<and> stateOf fulfilledOne 0 = Some fulfilled \<and>
   timers fulfilledOne = [] \<and>
   events (snd (then' 0 (returns 1 Undefined) Undefined fulfilledOne)) = events fulfilledOne \<and>
   timers (snd (then' 0 (returns 1 Undefined) Undefined fulfilledOne)) =
     [FulfilledTask 0 (returns 1 Undefined) 1 (BoundResolve 1) (BoundReject 1)] \<and>
   (\<exists>es. events (tick (snd (then' 0 (returns 1 Undefined) Undefined fulfilledOne))) =
      events fulfilledOne @ Invoked (returns 1 Undefined) Undefined (Number 1) # es)"
  using reactions_are_deferred [where s = fulfilledOne and a = 0 and f = "returns 1 Undefined"
      and g = Undefined and i = 1 and gt = "Gives Undefined" and body = "[]"
      and fin = "Return Undefined"]
  by (simp add: fulfilledOne_fields fulfilledOne_more returns_def)




text \<open>
  C8. The receiver rejects with a reason and \<^verbatim>\<open>onRejected\<close> is not a function
  (it is omitted, or any value that is not callable). Then the promise that
  \<^verbatim>\<open>then\<close> returned is rejected with the same reason at the next scheduler turn,
  both when the receiver was already rejected at the call and when it was pending and
  is rejected afterwards.
\<close>

theorem rejection_passes_through:
  "a < nextAddr s \<longrightarrow> heap s a = Some r \<longrightarrow> typeof g \<noteq> ''function'' \<longrightarrow> timers s = [] \<longrightarrow>
   (PromiseState r = rejected \<longrightarrow>
      heap (tick (snd (then' a f g s))) (fst (then' a f g s)) =
        Some (fresh\<lparr>PromiseState := rejected, PromiseResult := PromiseResult r\<rparr>)) \<and>
   (PromiseState r = pending \<longrightarrow> onRejectedCallbacks r = [] \<longrightarrow>
      heap (tick (reject a e (snd (then' a f g s)))) (fst (then' a f g s)) =
        Some (fresh\<lparr>PromiseState := rejected, PromiseResult := e\<rparr>))"
proof (intro impI conjI)
  assume a: "a < nextAddr s" and r: "heap s a = Some r" and g: "typeof g \<noteq> ''function''"
    and t: "timers s = []"
  let ?p = "nextAddr s"
  let ?t = "RejectedTask a g ?p (BoundResolve ?p) (BoundReject ?p)"
  {
    assume st: "PromiseState r = rejected"
    have so: "stateOf s a = Some rejected" using r st by (simp add: stateOf_def)
    show "heap (tick (snd (then' a f g s))) (fst (then' a f g s)) =
        Some (fresh\<lparr>PromiseState := rejected, PromiseResult := PromiseResult r\<rparr>)"
      using a r g t
      by (simp add: then'_rejected [OF a so] tick_def runTask.simps resultOf_def reject_def
          fresh_def)
  }
  {
    assume st: "PromiseState r = pending" and q: "onRejectedCallbacks r = []"
    show "heap (tick (reject a e (snd (then' a f g s)))) (fst (then' a f g s)) =
        Some (fresh\<lparr>PromiseState := rejected, PromiseResult := e\<rparr>)"
      using a g t q st
      by (simp add: then'_pending [OF a r st] tick_def runTask.simps resultOf_def reject_def
          fresh_def forEach_eq)
  }
qed

lemma rejectedOne_fields:
  "heap rejectedOne 0 = Some (fresh\<lparr>PromiseState := rejected, PromiseResult := String ''E''\<rparr>)"
  "nextAddr rejectedOne = 1"
  "timers rejectedOne = []"
  by (simp_all add: rejectedOne_def construct_def alloc_def init_def
      logEvent_def reject_def fresh_def)

theorem rejection_passes_through_witness:
  "0 < nextAddr rejectedOne \<and>
   heap rejectedOne 0 = Some (fresh\<lparr>PromiseState := rejected, PromiseResult := String ''E''\<rparr>) \<and>
   typeof Undefined \<noteq> ''function'' \<and> timers rejectedOne = [] \<and>
   heap (tick (snd (then' 0 (returns 1 Null) Undefined rejectedOne))) 1 =
     Some (fresh\<lparr>PromiseState := rejected, PromiseResult := String ''E''\<rparr>) \<and>
   0 < nextAddr pendingOne \<and> heap pendingOne 0 = Some fresh \<and> timers pendingOne = [] \<and>
   heap (tick (reject 0 (String ''E'') (snd (then' 0 (returns 1 Null) Undefined pendingOne)))) 1 =
     Some (fresh\<lparr>PromiseState := rejected, PromiseResult := String ''E''\<rparr>)"
  using rejection_passes_through [where s = rejectedOne and a = 0 and g = Undefined
      and f = "returns 1 Null"
      and r = "fresh\<lparr>PromiseState := rejected, PromiseResult := String ''E''\<rparr>"]
    rejection_passes_through [where s = pendingOne and a = 0 and g = Undefined
      and f = "returns 1 Null" and r = fresh and e = "String ''E''"]
  by (simp add: rejectedOne_fields pendingOne_fields then'_rejected then'_pending stateOf_def
      fresh_def)


subsection \<open>The reaction queues\<close>

text \<open>
  C4, as stated, fails: after \<^verbatim>\<open>p = new ZPromise(() => {})\<close>, \<^verbatim>\<open>p.then()\<close>, a call
  of the bound \<^verbatim>\<open>resolve\<close> with 1 and a scheduler turn, the promise is fulfilled and
  each of its two queues still holds its entry. \<^verbatim>\<open>resolve\<close> and \<^verbatim>\<open>reject\<close> run
  \<^verbatim>\<open>forEach\<close> over a queue and never empty it.
\<close>

theorem queues_keep_entries_counterexample:
  "stateOf (steps [Then 0 Undefined Undefined, Call (Bound (BoundResolve 0)) (Number 1), Tick]
      pendingOne) 0 = Some fulfilled \<and>
   map_option onFulfilledCallbacks
     (heap (steps [Then 0 Undefined Undefined, Call (Bound (BoundResolve 0)) (Number 1), Tick]
        pendingOne) 0) =
     Some [SetTimeout (FulfilledTask 0 Undefined 1 (BoundResolve 1) (BoundReject 1))] \<and>
   map_option onRejectedCallbacks
     (heap (steps [Then 0 Undefined Undefined, Call (Bound (BoundResolve 0)) (Number 1), Tick]
        pendingOne) 0) =
     Some [SetTimeout (RejectedTask 0 Undefined 1 (BoundResolve 1) (BoundReject 1))]"
  by (simp add: pendingOne_fields then'_pending fresh_def resolve_def forEach_eq tick_def
      runTask.simps resultOf_def stateOf_def)

text \<open>
  C4, amended. While a promise is pending, \<^verbatim>\<open>then\<close> appends one entry to each of
  its two queues. Settlement invokes every entry of the matching queue once, in queue
  order, each invocation scheduling the task of the entry, and invokes no entry of the
  other queue; the queues keep their entries. After settlement \<^verbatim>\<open>resolve\<close> and
  \<^verbatim>\<open>reject\<close> do nothing, so no entry is invoked again, and no client action changes
  the record, so no entry is ever added.
\<close>

theorem queues_used_once:
  "a < nextAddr s \<longrightarrow> heap s a = Some r \<longrightarrow>
   (PromiseState r = pending \<longrightarrow>
      heap (snd (then' a f g s)) a =
        Some (r\<lparr>onFulfilledCallbacks := onFulfilledCallbacks r @
                   [SetTimeout (FulfilledTask a f (nextAddr s) (BoundResolve (nextAddr s))
                      (BoundReject (nextAddr s)))],
                 onRejectedCallbacks := onRejectedCallbacks r @
                   [SetTimeout (RejectedTask a g (nextAddr s) (BoundResolve (nextAddr s))
                      (BoundReject (nextAddr s)))]\<rparr>) \<and>
      resolve a v s =
        s\<lparr>heap := (heap s)(a \<mapsto> r\<lparr>PromiseState := fulfilled, PromiseResult := v\<rparr>),
          timers := timers s @ map taskOf (onFulfilledCallbacks r)\<rparr> \<and>
      reject a v s =
        s\<lparr>heap := (heap s)(a \<mapsto> r\<lparr>PromiseState := rejected, PromiseResult := v\<rparr>),
          timers := timers s @ map taskOf (onRejectedCallbacks r)\<rparr>) \<and>
   (PromiseState r \<noteq> pending \<longrightarrow>
      resolve a v s = s \<and> reject a v s = s \<and> heap (steps acts s) a = Some r)"
proof -
  have "heap (steps acts s) a = Some r"
    if "a < nextAddr s" "heap s a = Some r" "PromiseState r \<noteq> pending"
    using evolves_steps [of s acts] that by (simp add: evolves_def)
  then show ?thesis
    by (simp add: resolve_settled reject_settled resolve_pending reject_pending then'_pending)
qed

theorem queues_used_once_witness:
  "0 < nextAddr pendingOne \<and> heap pendingOne 0 = Some fresh \<and> PromiseState fresh = pending \<and>
   timers (resolve 0 (Number 1) (snd (then' 0 Undefined Undefined pendingOne))) =
     [FulfilledTask 0 Undefined 1 (BoundResolve 1) (BoundReject 1)] \<and>
   0 < nextAddr fulfilledOne \<and>
   heap fulfilledOne 0 = Some (fresh\<lparr>PromiseState := fulfilled, PromiseResult := Number 1\<rparr>) \<and>
   heap (steps [Then 0 Undefined Undefined, Tick] fulfilledOne) 0 =
     Some (fresh\<lparr>PromiseState := fulfilled, PromiseResult := Number 1\<rparr>)"
proof -
  let ?s = "snd (then' 0 Undefined Undefined pendingOne)"
  let ?r = "fresh\<lparr>onFulfilledCallbacks :=
                [SetTimeout (FulfilledTask 0 Undefined 1 (BoundResolve 1) (BoundReject 1))],
              onRejectedCallbacks :=
                [SetTimeout (RejectedTask 0 Undefined 1 (BoundResolve 1) (BoundReject 1))]\<rparr>"
  have h: "0 < nextAddr ?s" "heap ?s 0 = Some ?r" "PromiseState ?r = pending" "timers ?s = []"
    by (simp_all add: pendingOne_fields then'_pending fresh_def)
  from queues_used_once [where s = ?s and a = 0 and r = ?r and v = "Number 1"] h
  have "timers (resolve 0 (Number 1) ?s) =
      [FulfilledTask 0 Undefined 1 (BoundResolve 1) (BoundReject 1)]"
    by simp
  moreover
  from queues_used_once [where s = fulfilledOne and a = 0
      and r = "fresh\<lparr>PromiseState := fulfilled, PromiseResult := Number 1\<rparr>"
      and acts = "[Then 0 Undefined Undefined, Tick]"]
  have "heap (steps [Then 0 Undefined Undefined, Tick] fulfilledOne) 0 =
     Some (fresh\<lparr>PromiseState := fulfilled, PromiseResult := Number 1\<rparr>)"
    by (simp add: fulfilledOne_fields del: steps.simps)
  ultimately show ?thesis
    by (simp add: pendingOne_fields fulfilledOne_fields fresh_def)
qed

subsection \<open>The cases of the Resolution Procedure\<close>

lemma rNP_self:
  "resolveNextPromise p (ZPromise p) res rej s =
     (Thrown (TypeError ''Chaining cycle detected for promise''), s)"
  by (simp add: resolveNextPromise.simps)

lemma rNP_promise:
  "p \<noteq> a \<Longrightarrow> resolveNextPromise p (ZPromise a) res rej s =
     (Returned Undefined, snd (then' a (Reenter p res rej) (Bound rej) s))"
  by (simp add: resolveNextPromise.simps)

lemma rNP_plain:
  "instanceofZPromise x = None \<Longrightarrow> getType x \<noteq> ''[object Object]'' \<Longrightarrow>
   getType x \<noteq> ''[object Function]'' \<Longrightarrow>
   resolveNextPromise p x res rej s = (Returned Undefined, settle res x s)"
  by (cases x) (simp_all add: resolveNextPromise.simps)

lemma rNP_thenable:
  "instanceofZPromise x = None \<Longrightarrow>
   getType x = ''[object Object]'' \<or> getType x = ''[object Function]'' \<Longrightarrow>
   readThen x = Gives F \<Longrightarrow> getType F = ''[object Function]'' \<Longrightarrow>
   resolveNextPromise p x res rej s =
     catchThen (nextCell s) rej
       (call F x (OnInner (nextCell s) p res rej) (OnErr (nextCell s) rej)
          (snd (newCell (logEvent (ReadThen x) s))))"
  by (cases x) (auto simp: resolveNextPromise.simps getThen_def newCell_def logEvent_def)

lemma rNP_not_callable:
  "instanceofZPromise x = None \<Longrightarrow>
   getType x = ''[object Object]'' \<or> getType x = ''[object Function]'' \<Longrightarrow>
   readThen x = Gives F \<Longrightarrow> getType F \<noteq> ''[object Function]'' \<Longrightarrow>
   resolveNextPromise p x res rej s =
     (Returned Undefined, settle res x (logEvent (ReadThen x) s))"
  by (cases x) (auto simp: resolveNextPromise.simps getThen_def)

lemma rNP_getter_throws:
  "instanceofZPromise x = None \<Longrightarrow>
   getType x = ''[object Object]'' \<or> getType x = ''[object Function]'' \<Longrightarrow>
   readThen x = Throws e \<Longrightarrow>
   resolveNextPromise p x res rej s =
     (Returned Undefined, settle res x (settle rej e (logEvent (ReadThen x) s)))"
  by (cases x) (auto simp: resolveNextPromise.simps getThen_def)

subsection \<open>The flag \<^verbatim>\<open>called\<close>\<close>

lemma called_kept:
  "evolves s s' \<Longrightarrow> c < nextCell s \<Longrightarrow> called s c \<Longrightarrow> called s' c \<and> c < nextCell s'"
  by (auto simp: evolves_def)

lemma called_after_onInner:
  assumes "c < nextCell s"
  shows "called (snd (call (OnInner c p res rej) t v w s)) c \<and>
         c < nextCell (snd (call (OnInner c p res rej) t v w s))"
proof (cases "called s c")
  case True
  with assms show ?thesis by simp
next
  case False
  have "evolves (setCalled c s) (snd (resolveNextPromise p v res rej (setCalled c s)))"
    by (rule evolves_engine(1))
  from called_kept [OF this] assms False show ?thesis
    by (simp add: setCalled_def)
qed

lemma called_after_onErr:
  assumes "c < nextCell s"
  shows "called (snd (call (OnErr c rej) t v w s)) c \<and>
         c < nextCell (snd (call (OnErr c rej) t v w s))"
proof (cases "called s c")
  case True
  with assms show ?thesis by simp
next
  case False
  from called_kept [OF evolves_settle, of c "setCalled c s" rej v] assms False show ?thesis
    by (simp add: setCalled_def)
qed

lemma exec_after_called:
  "called s c \<Longrightarrow> list_all isContCall rest \<Longrightarrow>
   snd (exec rest fin (OnInner c p res rej) (OnErr c rej) s) = s \<and>
   fst (exec rest fin (OnInner c p res rej) (OnErr c rej) s) =
     (case fin of Return v \<Rightarrow> Returned v | Throw v \<Rightarrow> Thrown v)"
proof (induction rest)
  case Nil
  then show ?case by (cases fin) simp_all
next
  case (Cons st rest)
  then show ?case by (cases st) simp_all
qed

lemma catchThen_called:
  "called (snd r) c \<Longrightarrow> catchThen c rej r = (Returned Undefined, snd r)"
  by (cases "(c, rej, r)" rule: catchThen.cases) simp_all

lemma thenable_first_call:
  assumes x: "instanceofZPromise x = None"
      "getType x = ''[object Object]'' \<or> getType x = ''[object Function]''"
      "readThen x = Gives F"
    and F: "F = Function i g (st # rest) fin" "isContCall st" "list_all isContCall rest"
  shows "resolveNextPromise p x res rej s =
     (Returned Undefined,
      snd (exec [st] (Return Undefined) (OnInner (nextCell s) p res rej) (OnErr (nextCell s) rej)
        (logEvent (Invoked F x (OnInner (nextCell s) p res rej))
           (snd (newCell (logEvent (ReadThen x) s))))))"
proof -
  let ?c = "nextCell s"
  let ?a = "OnInner ?c p res rej" and ?b = "OnErr ?c rej"
  define s3 where "s3 = logEvent (Invoked F x ?a) (snd (newCell (logEvent (ReadThen x) s)))"
  have c3: "?c < nextCell s3" by (simp add: s3_def logEvent_def newCell_def)
  define r1 where "r1 = (case st of CallFst v \<Rightarrow> call ?a Undefined v Undefined s3
      | CallSnd v \<Rightarrow> call ?b Undefined v Undefined s3
      | CallLit f v \<Rightarrow> call f Undefined v Undefined s3)"
  have called1: "called (snd r1) ?c"
    using F(2) called_after_onInner [OF c3] called_after_onErr [OF c3]
    by (cases st) (simp_all add: r1_def)
  have one: "snd (exec [st] (Return Undefined) ?a ?b s3) = snd r1"
    by (cases r1; cases "fst r1") (auto simp: r1_def [symmetric])
  have all: "snd (exec (st # rest) fin ?a ?b s3) = snd r1 \<and>
      called (snd (exec (st # rest) fin ?a ?b s3)) ?c"
  proof (cases "fst r1")
    case (Returned u)
    then have "exec (st # rest) fin ?a ?b s3 = exec rest fin ?a ?b (snd r1)"
      by (cases r1) (auto simp: r1_def [symmetric])
    with exec_after_called [OF called1 F(3)] called1 show ?thesis by simp
  next
    case (Thrown e)
    then have "exec (st # rest) fin ?a ?b s3 = (Thrown e, snd r1)"
      by (cases r1) (auto simp: r1_def [symmetric])
    with called1 show ?thesis by simp
  qed
  define e where "e = exec (st # rest) fin ?a ?b s3"
  have "resolveNextPromise p x res rej s = catchThen ?c rej e"
    using x F(1) by (simp add: rNP_thenable s3_def e_def)
  also have "\<dots> = (Returned Undefined, snd r1)"
    using all called1 catchThen_called [of e ?c rej] unfolding e_def [symmetric] by simp
  finally show ?thesis using one by (simp add: s3_def)
qed


lemma thenEntry_fields:
  "nextCell (thenEntry x F p res rej s) = Suc (nextCell s)"
  "\<not> called (thenEntry x F p res rej s) (nextCell s)"
  "heap (thenEntry x F p res rej s) = heap s"
  "timers (thenEntry x F p res rej s) = timers s"
  by (simp_all add: thenEntry_def logEvent_def newCell_def)

text \<open>
  C5. A thenable \<open>x\<close> whose \<^verbatim>\<open>then\<close> is the function \<open>F\<close> is resolved into the
  target \<open>p\<close>; after its first statement the body of \<open>F\<close> goes on with any calls
  of the two continuations and ends with a return or a throw. Then only the first of
  these takes effect:
  \<^item> when \<open>F\<close> first calls the resolve continuation with \<open>v\<close>, the outcome is that
    of the Resolution Procedure on \<open>v\<close>, run once;
  \<^item> when it first calls the reject continuation with \<open>v\<close>, or throws \<open>v\<close> before
    any call, the outcome is one call of \<^verbatim>\<open>reject\<close> with \<open>v\<close>;
  \<^item> every later call of either continuation, in the body or after any client
    actions, returns with the state unchanged, and a later throw is swallowed;
  \<^item> for \<^verbatim>\<open>{ then(res, rej) { res(5); ... } }\<close> and a pending target with its own
    bound methods, the target is fulfilled with 5;
  \<^item> when \<open>F\<close> returns without a call, the target is untouched and the flag is
    still false; in any later state where the flag is false, a call of the resolve
    continuation runs the Resolution Procedure on its argument and a call of the reject
    continuation calls \<^verbatim>\<open>reject\<close>; after that first call, every call of either
    continuation returns with the state unchanged, whatever the client has done in
    between; a pending target whose thenable kept the continuations is fulfilled with
    5 by a later \<^verbatim>\<open>res(5)\<close>.
\<close>

theorem first_settlement_wins:
  "instanceofZPromise x = None \<longrightarrow>
   (getType x = ''[object Object]'' \<or> getType x = ''[object Function]'') \<longrightarrow>
   readThen x = Gives F \<longrightarrow> list_all isContCall rest \<longrightarrow>
   (F = Function i g (CallFst v # rest) fin \<longrightarrow>
      fst (resolveNextPromise p x res rej s) = Returned Undefined \<and>
      snd (resolveNextPromise p x res rej s) =
        snd (resolveNextPromise p v res rej (setCalled (nextCell s) (thenEntry x F p res rej s)))) \<and>
   (F = Function i g (CallSnd v # rest) fin \<longrightarrow>
      resolveNextPromise p x res rej s =
        (Returned Undefined, settle rej v (setCalled (nextCell s) (thenEntry x F p res rej s)))) \<and>
   (F = Function i g [] (Throw v) \<longrightarrow>
      resolveNextPromise p x res rej s =
        (Returned Undefined, settle rej v (setCalled (nextCell s) (thenEntry x F p res rej s)))) \<and>
   (F = Function i g (st # rest) fin \<longrightarrow> isContCall st \<longrightarrow>
      call (OnInner (nextCell s) p res rej) t u w (steps acts (snd (resolveNextPromise p x res rej s))) =
        (Returned Undefined, steps acts (snd (resolveNextPromise p x res rej s))) \<and>
      call (OnErr (nextCell s) rej) t u w (steps acts (snd (resolveNextPromise p x res rej s))) =
        (Returned Undefined, steps acts (snd (resolveNextPromise p x res rej s)))) \<and>
   (F = Function i g (CallFst (Number 5) # rest) fin \<longrightarrow>
    heap s p = Some r \<longrightarrow> PromiseState r = pending \<longrightarrow>
      heap (snd (resolveNextPromise p x (BoundResolve p) (BoundReject p) s)) p =
        Some (r\<lparr>PromiseState := fulfilled, PromiseResult := Number 5\<rparr>)) \<and>
   (F = Function i g [] (Return v) \<longrightarrow>
      resolveNextPromise p x res rej s = (Returned Undefined, thenEntry x F p res rej s)) \<and>
   (\<not> called s' (nextCell s) \<longrightarrow>
      call (OnInner (nextCell s) p res rej) t u w s' =
        resolveNextPromise p u res rej (setCalled (nextCell s) s') \<and>
      call (OnErr (nextCell s) rej) t u w s' =
        (Returned Undefined, settle rej u (setCalled (nextCell s) s'))) \<and>
   (nextCell s < nextCell s' \<longrightarrow>
      call (OnInner (nextCell s) p res rej) t u w
          (steps acts (snd (call (OnInner (nextCell s) p res rej) t' u' w' s'))) =
        (Returned Undefined, steps acts (snd (call (OnInner (nextCell s) p res rej) t' u' w' s'))) \<and>
      call (OnErr (nextCell s) rej) t u w
          (steps acts (snd (call (OnInner (nextCell s) p res rej) t' u' w' s'))) =
        (Returned Undefined, steps acts (snd (call (OnInner (nextCell s) p res rej) t' u' w' s'))) \<and>
      call (OnInner (nextCell s) p res rej) t u w
          (steps acts (snd (call (OnErr (nextCell s) rej) t' u' w' s'))) =
        (Returned Undefined, steps acts (snd (call (OnErr (nextCell s) rej) t' u' w' s'))) \<and>
      call (OnErr (nextCell s) rej) t u w
          (steps acts (snd (call (OnErr (nextCell s) rej) t' u' w' s'))) =
        (Returned Undefined, steps acts (snd (call (OnErr (nextCell s) rej) t' u' w' s')))) \<and>
   (F = Function i g [] (Return v) \<longrightarrow> heap s p = Some r \<longrightarrow> PromiseState r = pending \<longrightarrow>
      heap (snd (resolveNextPromise p x (BoundResolve p) (BoundReject p) s)) p = Some r \<and>
      heap (snd (call (OnInner (nextCell s) p (BoundResolve p) (BoundReject p)) t (Number 5) w
             (snd (resolveNextPromise p x (BoundResolve p) (BoundReject p) s)))) p =
        Some (r\<lparr>PromiseState := fulfilled, PromiseResult := Number 5\<rparr>))"
proof (intro impI)
  assume x: "instanceofZPromise x = None"
    "getType x = ''[object Object]'' \<or> getType x = ''[object Function]''"
    "readThen x = Gives F"
    and rest: "list_all isContCall rest"
  let ?c = "nextCell s"
  have entry: "thenEntry x F p res rej s =
      logEvent (Invoked F x (OnInner ?c p res rej)) (snd (newCell (logEvent (ReadThen x) s)))"
    for res rej
    by (simp add: thenEntry_def)
  note fields = thenEntry_fields [of x F p _ _ s]
  have A: "fst (resolveNextPromise p x res rej s) = Returned Undefined \<and>
      snd (resolveNextPromise p x res rej s) =
        snd (resolveNextPromise p v res rej (setCalled ?c (thenEntry x F p res rej s)))"
    if "F = Function i g (CallFst v # rest) fin" for res rej v
    using thenable_first_call [OF x that _ rest, of p res rej s] fields(2) [of res rej]
    unfolding entry [symmetric]
    by (simp split: prod.splits outcome.splits)
  have B: "resolveNextPromise p x res rej s =
        (Returned Undefined, settle rej v (setCalled ?c (thenEntry x F p res rej s)))"
    if "F = Function i g (CallSnd v # rest) fin"
    using thenable_first_call [OF x that _ rest, of p res rej s] fields(2) [of res rej]
    unfolding entry [symmetric] by simp
  have C: "resolveNextPromise p x res rej s =
        (Returned Undefined, settle rej v (setCalled ?c (thenEntry x F p res rej s)))"
    if "F = Function i g [] (Throw v)"
    using x that
    by (simp add: rNP_thenable thenEntry_def logEvent_def newCell_def)
  have D: "call (OnInner ?c p res rej) t u w (steps acts (snd (resolveNextPromise p x res rej s))) =
        (Returned Undefined, steps acts (snd (resolveNextPromise p x res rej s))) \<and>
      call (OnErr ?c rej) t u w (steps acts (snd (resolveNextPromise p x res rej s))) =
        (Returned Undefined, steps acts (snd (resolveNextPromise p x res rej s)))"
    if F: "F = Function i g (st # rest) fin" and st: "isContCall st"
  proof -
    let ?e = "thenEntry x F p res rej s"
    let ?s' = "snd (resolveNextPromise p x res rej s)"
    have c: "?c < nextCell ?e" by (simp add: thenEntry_fields)
    have "called ?s' ?c \<and> ?c < nextCell ?s'"
    proof (cases st)
      case (CallFst v')
      with A [of v' res rej] F called_after_onInner [OF c, of p res rej Undefined v' Undefined]
      show ?thesis by (simp add: thenEntry_fields)
    next
      case (CallSnd v')
      with thenable_first_call [OF x F st rest, of p res rej s]
        called_after_onErr [OF c, of rej Undefined v' Undefined]
      show ?thesis unfolding entry [symmetric] by (simp add: thenEntry_fields)
    next
      case (CallLit f' v')
      with st show ?thesis by simp
    qed
    with called_kept [OF evolves_steps [of ?s' acts], of ?c]
    have "called (steps acts ?s') ?c" by simp
    then show ?thesis by simp
  qed
  have E: "heap (snd (resolveNextPromise p x (BoundResolve p) (BoundReject p) s)) p =
        Some (r\<lparr>PromiseState := fulfilled, PromiseResult := Number 5\<rparr>)"
    if "F = Function i g (CallFst (Number 5) # rest) fin" "heap s p = Some r"
      "PromiseState r = pending"
    using A [OF that(1), of "BoundResolve p" "BoundReject p"] that(2,3)
    by (simp add: rNP_plain setCalled_def fields resolve_def forEach_eq)
  have R: "resolveNextPromise p x res rej s = (Returned Undefined, thenEntry x F p res rej s)"
    if "F = Function i g [] (Return v)" for res rej
    using x that by (simp add: rNP_thenable thenEntry_def)
  have L1: "call (OnInner ?c p res rej) t u w s' =
        resolveNextPromise p u res rej (setCalled ?c s') \<and>
      call (OnErr ?c rej) t u w s' = (Returned Undefined, settle rej u (setCalled ?c s'))"
    if "\<not> called s' ?c" for res rej u
    using that by simp
  have L2: "call (OnInner ?c p res rej) t u w (steps acts s'') = (Returned Undefined, steps acts s'') \<and>
      call (OnErr ?c rej) t u w (steps acts s'') = (Returned Undefined, steps acts s'')"
    if "called s'' ?c \<and> ?c < nextCell s''" for s''
    using called_kept [OF evolves_steps [of s'' acts], of ?c] that by simp
  have L3: "call (OnInner ?c p res rej) t u w
          (steps acts (snd (call (OnInner ?c p res rej) t' u' w' s'))) =
        (Returned Undefined, steps acts (snd (call (OnInner ?c p res rej) t' u' w' s'))) \<and>
      call (OnErr ?c rej) t u w
          (steps acts (snd (call (OnInner ?c p res rej) t' u' w' s'))) =
        (Returned Undefined, steps acts (snd (call (OnInner ?c p res rej) t' u' w' s'))) \<and>
      call (OnInner ?c p res rej) t u w
          (steps acts (snd (call (OnErr ?c rej) t' u' w' s'))) =
        (Returned Undefined, steps acts (snd (call (OnErr ?c rej) t' u' w' s'))) \<and>
      call (OnErr ?c rej) t u w
          (steps acts (snd (call (OnErr ?c rej) t' u' w' s'))) =
        (Returned Undefined, steps acts (snd (call (OnErr ?c rej) t' u' w' s')))"
    if c: "?c < nextCell s'"
    using L2 [OF called_after_onInner [OF c, of p res rej t' u' w']]
      L2 [OF called_after_onErr [OF c, of rej t' u' w']]
    by blast
  have Ex: "heap (snd (resolveNextPromise p x (BoundResolve p) (BoundReject p) s)) p = Some r \<and>
      heap (snd (call (OnInner ?c p (BoundResolve p) (BoundReject p)) t (Number 5) w
             (snd (resolveNextPromise p x (BoundResolve p) (BoundReject p) s)))) p =
        Some (r\<lparr>PromiseState := fulfilled, PromiseResult := Number 5\<rparr>)"
    if "F = Function i g [] (Return v)" "heap s p = Some r" "PromiseState r = pending"
    using that(2,3)
    by (simp add: R [OF that(1)] thenEntry_fields rNP_plain setCalled_def resolve_def forEach_eq)
  from A B C D E R L1 L3 Ex
  show "(F = Function i g (CallFst v # rest) fin \<longrightarrow>
      fst (resolveNextPromise p x res rej s) = Returned Undefined \<and>
      snd (resolveNextPromise p x res rej s) =
        snd (resolveNextPromise p v res rej (setCalled (nextCell s) (thenEntry x F p res rej s)))) \<and>
   (F = Function i g (CallSnd v # rest) fin \<longrightarrow>
      resolveNextPromise p x res rej s =
        (Returned Undefined, settle rej v (setCalled (nextCell s) (thenEntry x F p res rej s)))) \<and>
   (F = Function i g [] (Throw v) \<longrightarrow>
      resolveNextPromise p x res rej s =
        (Returned Undefined, settle rej v (setCalled (nextCell s) (thenEntry x F p res rej s)))) \<and>
   (F = Function i g (st # rest) fin \<longrightarrow> isContCall st \<longrightarrow>
      call (OnInner (nextCell s) p res rej) t u w (steps acts (snd (resolveNextPromise p x res rej s))) =
        (Returned Undefined, steps acts (snd (resolveNextPromise p x res rej s))) \<and>
      call (OnErr (nextCell s) rej) t u w (steps acts (snd (resolveNextPromise p x res rej s))) =
        (Returned Undefined, steps acts (snd (resolveNextPromise p x res rej s)))) \<and>
   (F = Function i g (CallFst (Number 5) # rest) fin \<longrightarrow>
    heap s p = Some r \<longrightarrow> PromiseState r = pending \<longrightarrow>
      heap (snd (resolveNextPromise p x (BoundResolve p) (BoundReject p) s)) p =
        Some (r\<lparr>PromiseState := fulfilled, PromiseResult := Number 5\<rparr>)) \<and>
   (F = Function i g [] (Return v) \<longrightarrow>
      resolveNextPromise p x res rej s = (Returned Undefined, thenEntry x F p res rej s)) \<and>
   (\<not> called s' (nextCell s) \<longrightarrow>
      call (OnInner (nextCell s) p res rej) t u w s' =
        resolveNextPromise p u res rej (setCalled (nextCell s) s') \<and>
      call (OnErr (nextCell s) rej) t u w s' =
        (Returned Undefined, settle rej u (setCalled (nextCell s) s'))) \<and>
   (nextCell s < nextCell s' \<longrightarrow>
      call (OnInner (nextCell s) p res rej) t u w
          (steps acts (snd (call (OnInner (nextCell s) p res rej) t' u' w' s'))) =
        (Returned Undefined, steps acts (snd (call (OnInner (nextCell s) p res rej) t' u' w' s'))) \<and>
      call (OnErr (nextCell s) rej) t u w
          (steps acts (snd (call (OnInner (nextCell s) p res rej) t' u' w' s'))) =
        (Returned Undefined, steps acts (snd (call (OnInner (nextCell s) p res rej) t' u' w' s'))) \<and>
      call (OnInner (nextCell s) p res rej) t u w
          (steps acts (snd (call (OnErr (nextCell s) rej) t' u' w' s'))) =
        (Returned Undefined, steps acts (snd (call (OnErr (nextCell s) rej) t' u' w' s'))) \<and>
      call (OnErr (nextCell s) rej) t u w
          (steps acts (snd (call (OnErr (nextCell s) rej) t' u' w' s'))) =
        (Returned Undefined, steps acts (snd (call (OnErr (nextCell s) rej) t' u' w' s')))) \<and>
   (F = Function i g [] (Return v) \<longrightarrow> heap s p = Some r \<longrightarrow> PromiseState r = pending \<longrightarrow>
      heap (snd (resolveNextPromise p x (BoundResolve p) (BoundReject p) s)) p = Some r \<and>
      heap (snd (call (OnInner (nextCell s) p (BoundResolve p) (BoundReject p)) t (Number 5) w
             (snd (resolveNextPromise p x (BoundResolve p) (BoundReject p) s)))) p =
        Some (r\<lparr>PromiseState := fulfilled, PromiseResult := Number 5\<rparr>))"
    by blast
qed




theorem first_settlement_wins_witness:
  "instanceofZPromise callsResFive = None \<and> getType callsResFive = ''[object Object]'' \<and>
   readThen callsResFive =
     Gives (Function 6 (Gives Undefined)
       [CallFst (Number 5), CallFst (Number 6), CallSnd (String ''no'')] (Throw (String ''late''))) \<and>
   list_all isContCall [CallFst (Number 6), CallSnd (String ''no'')] \<and>
   isContCall (CallFst (Number 5)) \<and>
   heap pendingOne 0 = Some fresh \<and> PromiseState fresh = pending \<and>
   heap (snd (resolveNextPromise 0 callsResFive (BoundResolve 0) (BoundReject 0) pendingOne)) 0 =
     Some (fresh\<lparr>PromiseState := fulfilled, PromiseResult := Number 5\<rparr>) \<and>
   call (OnErr (nextCell pendingOne) (BoundReject 0)) Undefined (String ''again'') Undefined
       (steps [Tick] (snd (resolveNextPromise 0 callsResFive (BoundResolve 0) (BoundReject 0) pendingOne))) =
     (Returned Undefined,
      steps [Tick] (snd (resolveNextPromise 0 callsResFive (BoundResolve 0) (BoundReject 0) pendingOne))) \<and>
   instanceofZPromise keepsContinuations = None \<and>
   getType keepsContinuations = ''[object Object]'' \<and>
   readThen keepsContinuations = Gives (Function 6 (Gives Undefined) [] (Return Undefined)) \<and>
   heap (snd (resolveNextPromise 0 keepsContinuations (BoundResolve 0) (BoundReject 0) pendingOne)) 0 =
     Some fresh \<and>
   heap (snd (call (OnInner (nextCell pendingOne) 0 (BoundResolve 0) (BoundReject 0)) Undefined
       (Number 5) Undefined
       (snd (resolveNextPromise 0 keepsContinuations (BoundResolve 0) (BoundReject 0) pendingOne)))) 0 =
     Some (fresh\<lparr>PromiseState := fulfilled, PromiseResult := Number 5\<rparr>)"
proof -
  let ?F = "Function 6 (Gives Undefined)
        [CallFst (Number 5), CallFst (Number 6), CallSnd (String ''no'')] (Throw (String ''late''))"
  let ?G = "Function 6 (Gives Undefined) [] (Return Undefined)"
  have hyp: "instanceofZPromise callsResFive = None"
    "getType callsResFive = ''[object Object]''"
    "readThen callsResFive = Gives ?F"
    "list_all isContCall [CallFst (Number 6), CallSnd (String ''no'')]"
    "isContCall (CallFst (Number 5))"
    "heap pendingOne 0 = Some fresh" "PromiseState fresh = pending"
    "instanceofZPromise keepsContinuations = None"
    "getType keepsContinuations = ''[object Object]''"
    "readThen keepsContinuations = Gives ?G"
    "list_all isContCall []"
    by (simp_all add: callsResFive_def keepsContinuations_def readThen_def pendingOne_fields
        fresh_def)
  from first_settlement_wins [where x = callsResFive and s = pendingOne and p = 0
      and F = ?F and i = 6 and g = "Gives Undefined" and v = "Number 5" and st = "CallFst (Number 5)"
      and rest = "[CallFst (Number 6), CallSnd (String ''no'')]" and fin = "Throw (String ''late'')"
      and r = fresh and res = "BoundResolve 0" and rej = "BoundReject 0"
      and t = Undefined and u = "String ''again''" and w = Undefined and acts = "[Tick]"] hyp
  have one: "heap (snd (resolveNextPromise 0 callsResFive (BoundResolve 0) (BoundReject 0) pendingOne)) 0 =
     Some (fresh\<lparr>PromiseState := fulfilled, PromiseResult := Number 5\<rparr>) \<and>
   call (OnErr (nextCell pendingOne) (BoundReject 0)) Undefined (String ''again'') Undefined
       (steps [Tick] (snd (resolveNextPromise 0 callsResFive (BoundResolve 0) (BoundReject 0) pendingOne))) =
     (Returned Undefined,
      steps [Tick] (snd (resolveNextPromise 0 callsResFive (BoundResolve 0) (BoundReject 0) pendingOne)))"
    by blast
  from first_settlement_wins [where x = keepsContinuations and s = pendingOne and p = 0
      and F = ?G and i = 6 and g = "Gives Undefined" and v = Undefined
      and rest = "[]" and fin = "Return Undefined"
      and r = fresh and res = "BoundResolve 0" and rej = "BoundReject 0"
      and t = Undefined and w = Undefined] hyp
  have two: "heap (snd (resolveNextPromise 0 keepsContinuations (BoundResolve 0) (BoundReject 0) pendingOne)) 0 =
     Some fresh \<and>
   heap (snd (call (OnInner (nextCell pendingOne) 0 (BoundResolve 0) (BoundReject 0)) Undefined
       (Number 5) Undefined
       (snd (resolveNextPromise 0 keepsContinuations (BoundResolve 0) (BoundReject 0) pendingOne)))) 0 =
     Some (fresh\<lparr>PromiseState := fulfilled, PromiseResult := Number 5\<rparr>)"
    by blast
  from one two hyp show ?thesis by blast
qed

subsection \<open>Reads of the property \<^verbatim>\<open>then\<close>\<close>

lemma readsBelow_refl: "readsBelow n s s"
  by (simp add: readsBelow_def)

lemma readsBelow_trans: "readsBelow n s s' \<Longrightarrow> readsBelow n s' s'' \<Longrightarrow> readsBelow n s s''"
  unfolding readsBelow_def by auto

lemma readsBelow_mono: "readsBelow n s s' \<Longrightarrow> n \<le> m \<Longrightarrow> readsBelow m s s'"
  unfolding readsBelow_def by (meson le_trans)

lemma readsBelow_same: "events s' = events s \<Longrightarrow> readsBelow n s s'"
  by (simp add: readsBelow_def)

lemma readsBelow_settle: "readsBelow n s (settle b v s)"
  by (simp add: readsBelow_same settle_events)

lemma readsBelow_then: "readsBelow n s (snd (then' a f g s))"
  by (simp add: readsBelow_same then'_events)

lemma readsBelow_invoked: "readsBelow n s (logEvent (Invoked f t a) s)"
  by (simp add: readsBelow_def logEvent_def)

lemma readsBelow_read: "size x \<le> n \<Longrightarrow> readsBelow n s (logEvent (ReadThen x) s)"
  by (simp add: readsBelow_def logEvent_def)

lemma readsBelow_getThen: "readsBelow (size x) s (snd (getThen x rej s))"
  by (auto simp: getThen_def Let_def split: getter.splits
      intro: readsBelow_read readsBelow_trans [OF readsBelow_read readsBelow_settle])

lemma readsBelow_catchThen:
  "readsBelow n s (snd r) \<Longrightarrow> readsBelow n s (snd (catchThen c rej r))"
  by (cases "(c, rej, r)" rule: catchThen.cases)
    (auto simp: readsBelow_def settle_events setCalled_def)

lemma size_getThen:
  "getThen x rej s = (thenFunc, s2) \<Longrightarrow> getType thenFunc = ''[object Function]'' \<Longrightarrow>
   size thenFunc < size x"
  by (cases x) (auto simp: getThen_def readThen_def Let_def split: getter.splits)

lemma reads_bounded:
  "readsBelow (size x) s (snd (resolveNextPromise p x res rej s))"
  "readsBelow (size f + size a + size b) s (snd (call f this a b s))"
  "readsBelow (size_list size body + size a + size b) s (snd (exec body fin a b s))"
proof (induction p x res rej s and f this a b s and body fin a b s
    rule: resolveNextPromise_call_exec.induct)
  case (1 p x res rej s)
  show ?case
  proof (cases "ZPromise p \<noteq> x \<and> instanceofZPromise x = None \<and>
      (getType x = ''[object Object]'' \<or> getType x = ''[object Function]'') \<and>
      getType (fst (getThen x rej s)) = ''[object Function]''")
    case True
    obtain thenFunc s2 where g: "getThen x rej s = (thenFunc, s2)" by force
    obtain c s3 where n: "newCell s2 = (c, s3)" by force
    let ?r = "call thenFunc x (OnInner c p res rej) (OnErr c rej) s3"
    have "readsBelow (size thenFunc + size (OnInner c p res rej) + size (OnErr c rej)) s3 (snd ?r)"
      by (rule 1) (use True g n in auto)
    moreover have "size thenFunc < size x"
      using size_getThen [OF g] True g by simp
    ultimately have "readsBelow (size x) s3 (snd ?r)"
      by (auto elim: readsBelow_mono)
    moreover have "readsBelow (size x) s s2" using readsBelow_getThen [of x s rej] g by simp
    moreover have "readsBelow (size x) s2 s3"
      using n by (auto simp: newCell_def intro: readsBelow_same)
    ultimately have "readsBelow (size x) s (snd (catchThen c rej ?r))"
      by (blast intro: readsBelow_trans readsBelow_catchThen)
    then show ?thesis
      using True g n by (subst resolveNextPromise.simps) auto
  next
    case False
    then show ?thesis
      using readsBelow_getThen [of x s rej]
      by (subst resolveNextPromise.simps)
        (auto simp: readsBelow_refl readsBelow_then readsBelow_settle
          split: option.splits prod.splits intro: readsBelow_trans [OF _ readsBelow_settle])
  qed
next
  case (2 i g body fin this a b s)
  let ?n = "size (Function i g body fin) + size a + size b"
  from 2 have "readsBelow ?n (logEvent (Invoked (Function i g body fin) this a) s)
      (snd (exec body fin a b (logEvent (Invoked (Function i g body fin) this a) s)))"
    by (auto elim: readsBelow_mono)
  from readsBelow_trans [OF readsBelow_invoked this] show ?case by simp
next
  case (3 t i g body fin this a b s)
  let ?n = "size (TaggedFunction t i g body fin) + size a + size b"
  from 3 have "readsBelow ?n (logEvent (Invoked (TaggedFunction t i g body fin) this a) s)
      (snd (exec body fin a b (logEvent (Invoked (TaggedFunction t i g body fin) this a) s)))"
    by (auto elim: readsBelow_mono)
  from readsBelow_trans [OF readsBelow_invoked this] show ?case by simp
next
  case (11 st rest fin a b s)
  show ?case
  proof (cases st)
    case (CallFst v)
    obtain o1 s1 where c: "call a Undefined v Undefined s = (o1, s1)" by force
    from 11(1) [OF CallFst] c have "readsBelow (size_list size (st # rest) + size a + size b) s s1"
      using CallFst by (auto elim: readsBelow_mono)
    moreover have "readsBelow (size_list size (st # rest) + size a + size b) s1
        (snd (exec rest fin a b s1))" if "o1 = Returned u" for u
      using 11(4) [of o1 s1 u] c CallFst that by (auto elim: readsBelow_mono)
    ultimately show ?thesis
      using c CallFst by (cases o1) (auto intro: readsBelow_trans)
  next
    case (CallSnd v)
    obtain o1 s1 where c: "call b Undefined v Undefined s = (o1, s1)" by force
    from 11(2) [OF CallSnd] c have "readsBelow (size_list size (st # rest) + size a + size b) s s1"
      using CallSnd by (auto elim: readsBelow_mono)
    moreover have "readsBelow (size_list size (st # rest) + size a + size b) s1
        (snd (exec rest fin a b s1))" if "o1 = Returned u" for u
      using 11(4) [of o1 s1 u] c CallSnd that by (auto elim: readsBelow_mono)
    ultimately show ?thesis
      using c CallSnd by (cases o1) (auto intro: readsBelow_trans)
  next
    case (CallLit f v)
    obtain o1 s1 where c: "call f Undefined v Undefined s = (o1, s1)" by force
    from 11(3) [OF CallLit] c have "readsBelow (size_list size (st # rest) + size a + size b) s s1"
      using CallLit by (auto elim: readsBelow_mono)
    moreover have "readsBelow (size_list size (st # rest) + size a + size b) s1
        (snd (exec rest fin a b s1))" if "o1 = Returned u" for u
      using 11(4) [of o1 s1 u] c CallLit that by (auto elim: readsBelow_mono)
    ultimately show ?thesis
      using c CallLit by (cases o1) (auto intro: readsBelow_trans)
  qed
next
  case (5 p res rej this a b s)
  then show ?case by (auto elim: readsBelow_mono)
next
  case (6 c p res rej this a b s)
  then show ?case
    by (auto simp: readsBelow_def setCalled_def) (meson le_trans le_add1)
qed (auto simp: readsBelow_def settle_events setCalled_def)


lemma catchThen_events: "events (snd (catchThen c rej r)) = events (snd r)"
  by (cases "(c, rej, r)" rule: catchThen.cases) (auto simp: settle_events setCalled_def)

lemma size_readThen:
  "getType x = ''[object Object]'' \<or> getType x = ''[object Function]'' \<Longrightarrow>
   instanceofZPromise x = None \<Longrightarrow> readThen x = Gives F \<Longrightarrow>
   getType F = ''[object Function]'' \<Longrightarrow> size F < size x"
  by (cases x) (auto simp: readThen_def)

text \<open>
  Where the Resolution Procedure does inspect a candidate \<open>x\<close> (its type tag is that
  of an object or a function and it is no ZPromise), one run reads \<^verbatim>\<open>x.then\<close>
  exactly once: the trace grows by the read and by events among which there is no
  other read of \<^verbatim>\<open>x.then\<close>. When the value read is a foreign function with the tag
  of a function, the next event is the call of that very value with \<open>x\<close> as receiver
  and the resolve continuation as first argument; when the tag of the value read is not
  that of a function, or the getter throws, nothing else is added to the trace.
\<close>

lemma inspected_candidate_read_once:
  "instanceofZPromise x = None \<longrightarrow>
   (getType x = ''[object Object]'' \<or> getType x = ''[object Function]'') \<longrightarrow>
   (\<exists>es. events (snd (resolveNextPromise p x res rej s)) = events s @ ReadThen x # es \<and>
      ReadThen x \<notin> set es \<and>
      (readThen x = Gives (Function i g body fin) \<longrightarrow>
         (\<exists>es'. es = Invoked (Function i g body fin) x (OnInner (nextCell s) p res rej) # es')) \<and>
      (readThen x = Gives F \<longrightarrow> getType F \<noteq> ''[object Function]'' \<longrightarrow> es = []) \<and>
      (readThen x = Throws e \<longrightarrow> es = []))"
proof (intro impI)
  assume x: "instanceofZPromise x = None"
    "getType x = ''[object Object]'' \<or> getType x = ''[object Function]''"
  let ?s' = "snd (resolveNextPromise p x res rej s)"
  let ?P = "\<lambda>es. events ?s' = events s @ ReadThen x # es \<and>
      ReadThen x \<notin> set es \<and>
      (readThen x = Gives (Function i g body fin) \<longrightarrow>
         (\<exists>es'. es = Invoked (Function i g body fin) x (OnInner (nextCell s) p res rej) # es')) \<and>
      (readThen x = Gives F \<longrightarrow> getType F \<noteq> ''[object Function]'' \<longrightarrow> es = []) \<and>
      (readThen x = Throws e \<longrightarrow> es = [])"
  show "\<exists>es. ?P es"
  proof (cases "readThen x")
    case (Throws e')
    then have "?P []"
      using x by (simp add: rNP_getter_throws settle_events logEvent_def)
    then show ?thesis ..
  next
    case (Gives G)
    show ?thesis
    proof (cases "getType G = ''[object Function]''")
      case False
      with Gives have "?P []"
        using x by (auto simp: rNP_not_callable settle_events logEvent_def)
      then show ?thesis ..
    next
      case True
      let ?c = "nextCell s"
      let ?a = "OnInner ?c p res rej" and ?b = "OnErr ?c rej"
      define s2 where "s2 = snd (newCell (logEvent (ReadThen x) s))"
      define r where "r = call G x ?a ?b s2"
      have e2: "events s2 = events s @ [ReadThen x]"
        by (simp add: s2_def newCell_def logEvent_def)
      have res: "resolveNextPromise p x res rej s = catchThen ?c rej r"
        using x Gives True by (simp add: rNP_thenable r_def s2_def)
      have "readsBelow (size G + size ?a + size ?b) s2 (snd r)"
        unfolding r_def by (rule reads_bounded(2))
      then obtain es where es: "events (snd r) = events s2 @ es"
        "\<And>y. ReadThen y \<in> set es \<Longrightarrow> size y \<le> size G"
        by (auto simp: readsBelow_def)
      have notin: "ReadThen x \<notin> set es"
        using es(2) [of x] size_readThen [OF x(2) x(1) Gives True] by auto
      have first: "\<exists>es'. es = Invoked G x ?a # es'" if "G = Function i g body fin"
      proof -
        have "appends (logEvent (Invoked G x ?a) s2) (snd (exec body fin ?a ?b (logEvent (Invoked G x ?a) s2)))"
          by (rule appends_engine(3))
        then show ?thesis
          using es(1) that by (auto simp: r_def appends_def logEvent_def)
      qed
      have "?P es"
        using es(1) e2 notin first Gives True by (auto simp: res catchThen_events)
      then show ?thesis ..
    qed
  qed
qed

subsection \<open>Nested promises\<close>

lemma fst_catchThen: "fst (catchThen c rej r) = Returned Undefined"
  by (cases "(c, rej, r)" rule: catchThen.cases) simp_all

lemma rNP_returns: "x \<noteq> ZPromise p \<Longrightarrow> fst (resolveNextPromise p x res rej s) = Returned Undefined"
  by (subst resolveNextPromise.simps)
    (auto simp: fst_catchThen Let_def split: option.splits prod.splits)

lemma state_timers_nil: "timers s = [] \<Longrightarrow> s\<lparr>timers := []\<rparr> = s"
  by (cases s) simp

lemma skip_fields:
  "timers (skip s) = timers s"
  "nextAddr (skip s) = Suc (nextAddr s)"
  "a < nextAddr s \<Longrightarrow> heap (skip s) a = heap s a"
  "events (skip s) = events s"
  by (simp_all add: skip_def alloc_def resolve_def fresh_def forEach_eq)

lemma tick_adopt:
  assumes t: "timers s = []" and c: "c < nextAddr s" "stateOf s c = Some fulfilled"
    and x: "resultOf s c \<noteq> ZPromise b"
  shows "tick (snd (then' c (Reenter b rb jb) J s)) =
     resolve (nextAddr s) Undefined
       (snd (resolveNextPromise b (resultOf s c) rb jb (snd (alloc s))))"
proof -
  let ?q = "nextAddr s"
  let ?T = "FulfilledTask c (Reenter b rb jb) ?q (BoundResolve ?q) (BoundReject ?q)"
  have X: "snd (then' c (Reenter b rb jb) J s) = (snd (alloc s))\<lparr>timers := [?T]\<rparr>"
    using t by (simp add: then'_fulfilled [OF c] alloc_def)
  have a0: "(snd (alloc s))\<lparr>timers := []\<rparr> = snd (alloc s)"
    by (rule state_timers_nil) (simp add: alloc_def t)
  have r: "resultOf (snd (alloc s)) c = resultOf s c"
    using c by (simp add: resultOf_def alloc_def)
  obtain o1 s1 where n: "resolveNextPromise b (resultOf s c) rb jb (snd (alloc s)) = (o1, s1)"
    by force
  with rNP_returns [OF x, of rb jb "snd (alloc s)"] have o1: "o1 = Returned Undefined" by simp
  show ?thesis
    unfolding X by (simp add: tick_def a0 runTask.simps r n o1 rNP_plain)
qed

lemma then'_resolve_commute:
  assumes q: "heap s q = Some fresh" "q < nextAddr s"
    and c: "c < nextAddr s" "heap s c = Some r" "c \<noteq> q"
  shows "resolve q v (snd (then' c K J s)) = snd (then' c K J (resolve q v s))"
proof -
  let ?s' = "resolve q v s"
  have s': "?s' = s\<lparr>heap := (heap s)(q \<mapsto> fresh\<lparr>PromiseState := fulfilled, PromiseResult := v\<rparr>)\<rparr>"
    using q by (simp add: resolve_def fresh_def forEach_eq)
  have c': "c < nextAddr ?s'" "heap ?s' c = Some r"
    using c by (simp_all add: s')
  show ?thesis
  proof (cases "PromiseState r")
    case pending
    show ?thesis
      using q c
      by (simp add: then'_pending [OF c(1,2) pending] then'_pending [OF c' pending])
        (simp add: s' resolve_def forEach_eq fresh_def fun_upd_twist)
  next
    case fulfilled
    then have so: "stateOf s c = Some fulfilled" "stateOf ?s' c = Some fulfilled"
      using c c' by (simp_all add: stateOf_def)
    show ?thesis
      using q c
      by (simp add: then'_fulfilled [OF c(1) so(1)] then'_fulfilled [OF c'(1) so(2)])
        (simp add: s' resolve_def forEach_eq fresh_def fun_upd_twist)
  next
    case rejected
    then have so: "stateOf s c = Some rejected" "stateOf ?s' c = Some rejected"
      using c c' by (simp_all add: stateOf_def)
    show ?thesis
      using q c
      by (simp add: then'_rejected [OF c(1) so(1)] then'_rejected [OF c'(1) so(2)])
        (simp add: s' resolve_def forEach_eq fresh_def fun_upd_twist)
  qed
qed

lemma tick_adopt_promise:
  assumes t: "timers s = []" and c: "c < nextAddr s" "stateOf s c = Some fulfilled"
    and x: "resultOf s c = ZPromise c'" "c' \<noteq> b" "c' < nextAddr s" "heap s c' = Some r'"
  shows "tick (snd (then' c (Reenter b res rej) (Bound rej) s)) =
     snd (then' c' (Reenter b res rej) (Bound rej) (skip s))"
proof -
  let ?q = "nextAddr s"
  have "tick (snd (then' c (Reenter b res rej) (Bound rej) s)) =
      resolve ?q Undefined (snd (then' c' (Reenter b res rej) (Bound rej) (snd (alloc s))))"
    using x by (simp add: tick_adopt [OF t c] rNP_promise)
  also have "\<dots> = snd (then' c' (Reenter b res rej) (Bound rej) (resolve ?q Undefined (snd (alloc s))))"
    by (rule then'_resolve_commute [where r = r']) (use x in \<open>simp_all add: alloc_def\<close>)
  finally show ?thesis by (simp add: skip_def)
qed

lemma links_agree:
  "links s n x y \<Longrightarrow> nextAddr s \<le> nextAddr s' \<Longrightarrow>
   (\<forall>a<nextAddr s. heap s' a = heap s a) \<Longrightarrow> links s' n x y"
proof (induction n arbitrary: x)
  case 0
  then show ?case by simp
next
  case (Suc n)
  then show ?case
    by (auto simp: stateOf_def resultOf_def split: option.splits)
qed

lemma links_head:
  assumes "links s n x (ZPromise d)" "d < nextAddr s" "d \<noteq> b" "heap s d = Some rd"
    "heap s b = Some rb" "PromiseState rb = pending"
  shows "\<exists>c r. x = ZPromise c \<and> c < nextAddr s \<and> c \<noteq> b \<and> heap s c = Some r"
proof (cases n)
  case 0
  with assms show ?thesis by simp
next
  case (Suc m)
  with assms(1) obtain c where c: "instanceofZPromise x = Some c" "c < nextAddr s"
    "stateOf s c = Some fulfilled"
    by (auto split: option.splits)
  then have "x = ZPromise c" by (cases x) simp_all
  moreover from c(3) obtain r where "heap s c = Some r" "PromiseState r = fulfilled"
    by (auto simp: stateOf_def)
  moreover from this assms(5,6) have "c \<noteq> b" by auto
  ultimately show ?thesis using c(2) by blast
qed

lemma links_last:
  "links s (Suc m) x y \<Longrightarrow>
   \<exists>d. links s m x (ZPromise d) \<and> d < nextAddr s \<and> stateOf s d = Some fulfilled \<and> resultOf s d = y"
proof (induction m arbitrary: x)
  case 0
  then show ?case by (cases x) (auto split: option.splits)
next
  case (Suc m)
  from Suc.prems obtain c where c: "x = ZPromise c" "c < nextAddr s" "stateOf s c = Some fulfilled"
    "links s (Suc m) (resultOf s c) y"
    by (cases x) (auto split: option.splits)
  from Suc.IH [OF c(4)] c(1,2,3) show ?case by auto
qed

lemma unwind:
  assumes "timers s = []" "b < nextAddr s" "heap s b = Some rb" "PromiseState rb = pending"
    "links s n (ZPromise c) (ZPromise d)" "d < nextAddr s" "d \<noteq> b" "heap s d = Some rd"
  shows "\<exists>s'. ticks n (snd (then' c (Reenter b res rej) (Bound rej) s)) =
           snd (then' d (Reenter b res rej) (Bound rej) s') \<and>
         timers s' = [] \<and> nextAddr s \<le> nextAddr s' \<and> events s' = events s \<and>
         (\<forall>a<nextAddr s. heap s' a = heap s a)"
  using assms
proof (induction n arbitrary: s c)
  case 0
  then show ?case by auto
next
  case (Suc n)
  from Suc.prems(5) have c: "c < nextAddr s" "stateOf s c = Some fulfilled"
    and l: "links s n (resultOf s c) (ZPromise d)"
    by simp_all
  from links_head [OF l Suc.prems(6,7,8,3,4)]
  obtain c' r' where c': "resultOf s c = ZPromise c'" "c' < nextAddr s" "c' \<noteq> b"
    "heap s c' = Some r'"
    by blast
  have tick: "tick (snd (then' c (Reenter b res rej) (Bound rej) s)) =
      snd (then' c' (Reenter b res rej) (Bound rej) (skip s))"
    by (rule tick_adopt_promise [OF Suc.prems(1) c c'(1,3,2,4)])
  have agree: "\<forall>a<nextAddr s. heap (skip s) a = heap s a"
    by (simp add: skip_fields)
  have l': "links (skip s) n (ZPromise c') (ZPromise d)"
    using links_agree [OF l _ agree] c'(1) by (simp add: skip_fields)
  have "\<exists>s'. ticks n (snd (then' c' (Reenter b res rej) (Bound rej) (skip s))) =
           snd (then' d (Reenter b res rej) (Bound rej) s') \<and>
         timers s' = [] \<and> nextAddr (skip s) \<le> nextAddr s' \<and> events s' = events (skip s) \<and>
         (\<forall>a<nextAddr (skip s). heap s' a = heap (skip s) a)"
    by (rule Suc.IH) (use Suc.prems l' in \<open>simp_all add: skip_fields\<close>)
  then obtain s' where s': "ticks n (snd (then' c' (Reenter b res rej) (Bound rej) (skip s))) =
           snd (then' d (Reenter b res rej) (Bound rej) s')"
    "timers s' = []" "nextAddr (skip s) \<le> nextAddr s'" "events s' = events (skip s)"
    "\<forall>a<nextAddr (skip s). heap s' a = heap (skip s) a"
    by blast
  have "\<forall>a<nextAddr s. heap s' a = heap s a"
    using s'(5) by (simp add: skip_fields)
  with s' tick show ?case
    by (auto simp: skip_fields intro!: exI [of _ s'])
qed

lemma resolve_other: "q \<noteq> b \<Longrightarrow> heap (resolve q v s) b = heap s b"
  by (simp add: resolve_def forEach_eq split: option.splits)

lemma heap_logEvent: "heap (logEvent e s) = heap s"
  by (simp add: logEvent_def)

lemma heap_resolve_pending:
  "heap s b = Some rb \<Longrightarrow> PromiseState rb = pending \<Longrightarrow>
   heap (resolve b v s) = (heap s)(b \<mapsto> rb\<lparr>PromiseState := fulfilled, PromiseResult := v\<rparr>)"
  by (simp add: resolve_pending)

lemma heap_reject_pending:
  "heap s b = Some rb \<Longrightarrow> PromiseState rb = pending \<Longrightarrow>
   heap (reject b v s) = (heap s)(b \<mapsto> rb\<lparr>PromiseState := rejected, PromiseResult := v\<rparr>)"
  by (simp add: reject_pending)

lemma heap_resolve_rejected:
  "heap s b = Some rb \<Longrightarrow> PromiseState rb = rejected \<Longrightarrow> resolve b v s = s"
  by (simp add: resolve_def)

lemma nonThenable_fulfils:
  assumes "nonThenable v" "heap s b = Some rb" "PromiseState rb = pending"
  shows "heap (snd (resolveNextPromise b v (BoundResolve b) rej s)) =
     (heap s)(b \<mapsto> rb\<lparr>PromiseState := fulfilled, PromiseResult := v\<rparr>)"
proof (cases "getType v \<noteq> ''[object Object]'' \<and> getType v \<noteq> ''[object Function]''")
  case True
  with assms show ?thesis
    by (simp add: nonThenable_def rNP_plain resolve_pending)
next
  case False
  with assms(1) obtain F where F: "readThen v = Gives F" "getType F \<noteq> ''[object Function]''"
    by (auto simp: nonThenable_def split: getter.splits)
  from False assms F show ?thesis
    by (auto simp: nonThenable_def rNP_not_callable heap_resolve_pending heap_logEvent)
qed

lemma settles_as:
  assumes y: "settlesAs y = Some (st, v)" and b: "heap s b = Some rb" "PromiseState rb = pending"
  shows "heap (snd (resolveNextPromise b y (BoundResolve b) (BoundReject b) s)) =
     (heap s)(b \<mapsto> rb\<lparr>PromiseState := st, PromiseResult := v\<rparr>)"
proof -
  let ?res = "BoundResolve b" and ?rej = "BoundReject b"
  from y have inst: "instanceofZPromise y = None"
    by (auto simp: settlesAs_def split: if_splits)
  show ?thesis
  proof (cases "nonThenable y")
    case True
    then have "settlesAs y = Some (fulfilled, y)"
      by (auto simp: settlesAs_def nonThenable_def split: getter.splits)
    with y nonThenable_fulfils [OF True b] show ?thesis by simp
  next
    case False
    with inst have tag: "getType y = ''[object Object]'' \<or> getType y = ''[object Function]''"
      by (auto simp: nonThenable_def)
    show ?thesis
    proof (cases "readThen y")
      case (Throws e)
      let ?s1 = "reject b e (logEvent (ReadThen y) s)"
      have h1: "heap ?s1 = (heap s)(b \<mapsto> rb\<lparr>PromiseState := rejected, PromiseResult := e\<rparr>)"
        using b by (simp add: heap_reject_pending heap_logEvent)
      have "resolve b y ?s1 = ?s1"
        by (rule heap_resolve_rejected [where rb = "rb\<lparr>PromiseState := rejected, PromiseResult := e\<rparr>"])
          (simp_all add: h1)
      moreover have "st = rejected" "v = e"
        using y inst tag Throws by (auto simp: settlesAs_def)
      ultimately show ?thesis
        using h1 by (simp add: rNP_getter_throws [OF inst tag Throws])
    next
      case (Gives F)
      with False inst tag have call: "getType F = ''[object Function]''"
        by (auto simp: nonThenable_def)
      with y inst tag Gives have ts: "thenSettles F = Some (st, v)"
        by (auto simp: settlesAs_def)
      let ?c = "nextCell s"
      let ?e = "thenEntry y F b ?res ?rej s"
      have he: "heap (setCalled ?c ?e) = heap s" "heap (setCalled ?c ?e) b = Some rb"
        using b by (simp_all add: setCalled_def thenEntry_fields)
      from ts show ?thesis
      proof (cases F rule: thenSettles.cases)
        case (1 i g w rest fin)
        with ts have w: "list_all isContCall rest" "nonThenable w" "st = fulfilled" "v = w"
          by (auto split: if_splits)
        have "snd (resolveNextPromise b y ?res ?rej s) =
            snd (resolveNextPromise b w ?res ?rej (setCalled ?c ?e))"
          using thenable_first_call [OF inst tag Gives 1 _ w(1), of b ?res ?rej s]
            thenEntry_fields(2) [of y F b ?res ?rej s]
          by (simp add: thenEntry_def split: prod.splits outcome.splits)
        with nonThenable_fulfils [OF w(2) he(2) b(2), of ?rej] w(3,4) he(1) show ?thesis
          by simp
      next
        case (2 i g w rest fin)
        with ts have w: "list_all isContCall rest" "st = rejected" "v = w"
          by (auto split: if_splits)
        have "snd (resolveNextPromise b y ?res ?rej s) = settle ?rej w (setCalled ?c ?e)"
          using thenable_first_call [OF inst tag Gives 2 _ w(1), of b ?res ?rej s]
            thenEntry_fields(2) [of y F b ?res ?rej s]
          by (simp add: thenEntry_def)
        with w(2,3) he show ?thesis
          by (simp add: reject_pending [OF he(2) b(2)])
      next
        case (3 i g w)
        with ts have w: "st = rejected" "v = w" by auto
        have "snd (resolveNextPromise b y ?res ?rej s) = settle ?rej w (setCalled ?c ?e)"
          using inst tag Gives 3
          by (simp add: rNP_thenable thenEntry_def logEvent_def newCell_def)
        with w he show ?thesis
          by (simp add: reject_pending [OF he(2) b(2)])
      qed (use ts in simp_all)
    qed
  qed
qed


lemma settlesAs_not_promise: "settlesAs y = Some q \<Longrightarrow> y \<noteq> ZPromise b"
  by (auto simp: settlesAs_def split: if_splits)

lemma adopt_final:
  assumes t: "timers s = []" and b: "b < nextAddr s" "heap s b = Some rb" "PromiseState rb = pending"
    and d: "d < nextAddr s" "stateOf s d = Some fulfilled"
      "settlesAs (resultOf s d) = Some (st, v)"
  shows "heap (tick (snd (then' d (Reenter b (BoundResolve b) (BoundReject b))
            (Bound (BoundReject b)) s))) b =
         Some (rb\<lparr>PromiseState := st, PromiseResult := v\<rparr>)"
proof -
  have x: "resultOf s d \<noteq> ZPromise b" by (rule settlesAs_not_promise [OF d(3)])
  have hb: "heap (snd (alloc s)) b = Some rb" using b by (simp add: alloc_def)
  show ?thesis
    using b
    by (simp add: tick_adopt [OF t d(1,2) x] resolve_other settles_as [OF d(3) hb b(3)])
qed

lemma adopt_rejected:
  assumes t: "timers s = []" and b: "b < nextAddr s" "heap s b = Some rb" "PromiseState rb = pending"
    and d: "d < nextAddr s" "stateOf s d = Some rejected"
  shows "heap (tick (snd (then' d (Reenter b (BoundResolve b) (BoundReject b))
            (Bound (BoundReject b)) s))) b =
         Some (rb\<lparr>PromiseState := rejected, PromiseResult := resultOf s d\<rparr>)"
proof -
  let ?q = "nextAddr s"
  have a0: "(snd (alloc s))\<lparr>timers := []\<rparr> = snd (alloc s)"
    by (rule state_timers_nil) (simp add: alloc_def t)
  have hb: "heap (snd (alloc s)) b = Some rb" using b by (simp add: alloc_def)
  have r: "resultOf (snd (alloc s)) d = resultOf s d"
    using d by (simp add: resultOf_def alloc_def)
  have X: "snd (then' d (Reenter b (BoundResolve b) (BoundReject b)) (Bound (BoundReject b)) s) =
      (snd (alloc s))\<lparr>timers := [RejectedTask d (Bound (BoundReject b)) ?q (BoundResolve ?q)
        (BoundReject ?q)]\<rparr>"
    using t by (simp add: then'_rejected [OF d] alloc_def)
  show ?thesis
    unfolding X using b
    by (simp add: tick_def a0 runTask.simps r rNP_plain resolve_other
        reject_pending [OF hb b(3)])
qed

lemma adopt_pending:
  assumes t: "timers s = []" and b: "b < nextAddr s" "heap s b = Some rb" "PromiseState rb = pending"
    and d: "d < nextAddr s" "heap s d = Some rd" "PromiseState rd = pending" "d \<noteq> b"
      "onFulfilledCallbacks rd = []" "onRejectedCallbacks rd = []"
  shows "stateOf (snd (then' d (Reenter b (BoundResolve b) (BoundReject b))
            (Bound (BoundReject b)) s)) b = Some pending"
    and "settlesAs w = Some (st, v) \<Longrightarrow>
         heap (tick (resolve d w (snd (then' d (Reenter b (BoundResolve b) (BoundReject b))
            (Bound (BoundReject b)) s)))) b =
         Some (rb\<lparr>PromiseState := st, PromiseResult := v\<rparr>)"
    and "heap (tick (reject d e (snd (then' d (Reenter b (BoundResolve b) (BoundReject b))
            (Bound (BoundReject b)) s)))) b =
         Some (rb\<lparr>PromiseState := rejected, PromiseResult := e\<rparr>)"
proof -
  let ?q = "nextAddr s"
  let ?K = "Reenter b (BoundResolve b) (BoundReject b)" and ?J = "Bound (BoundReject b)"
  let ?X = "snd (then' d ?K ?J s)"
  let ?T = "FulfilledTask d ?K ?q (BoundResolve ?q) (BoundReject ?q)"
  let ?rd = "rd\<lparr>onFulfilledCallbacks := [SetTimeout ?T],
      onRejectedCallbacks := [SetTimeout (RejectedTask d ?J ?q (BoundResolve ?q) (BoundReject ?q))]\<rparr>"
  have X: "heap ?X d = Some ?rd" "heap ?X b = Some rb" "heap ?X ?q = Some fresh" "timers ?X = []"
    using t b d by (simp_all add: then'_pending [OF d(1,2,3)])
  show "stateOf ?X b = Some pending"
    using X b by (simp add: stateOf_def)
  have p: "PromiseState ?rd = pending" using d by simp
  {
    assume w: "settlesAs w = Some (st, v)"
    define s0 where "s0 = (resolve d w ?X)\<lparr>timers := []\<rparr>"
    have s0: "heap s0 b = Some rb" "resultOf s0 d = w"
      using X d by (simp_all add: s0_def resolve_pending [OF X(1) p] resultOf_def)
    have tk: "tick (resolve d w ?X) = runTask ?T s0"
      using d X by (simp add: s0_def resolve_pending [OF X(1) p] tick_def)
    obtain o1 s1 where n: "resolveNextPromise b w (BoundResolve b) (BoundReject b) s0 = (o1, s1)"
      by force
    with rNP_returns [OF settlesAs_not_promise [OF w], of b "BoundResolve b" "BoundReject b" s0]
    have o1: "o1 = Returned Undefined" by simp
    have h1: "heap s1 b = Some (rb\<lparr>PromiseState := st, PromiseResult := v\<rparr>)"
      using settles_as [OF w s0(1) b(3)] n by simp
    show "heap (tick (resolve d w ?X)) b = Some (rb\<lparr>PromiseState := st, PromiseResult := v\<rparr>)"
      using b h1
      by (simp add: tk runTask.simps s0(2) n o1 rNP_plain resolve_other)
  }
  show "heap (tick (reject d e ?X)) b = Some (rb\<lparr>PromiseState := rejected, PromiseResult := e\<rparr>)"
    using d b X
    by (simp add: reject_pending [OF X(1) p] tick_def runTask.simps resultOf_def
        rNP_plain resolve_def reject_def forEach_eq)
qed

lemma reaction_returns_promise:
  assumes t: "timers s = []" and a: "a < nextAddr s" "stateOf s a = Some fulfilled"
    and f: "f = Function i gt [] (Return (ZPromise c))" and c: "c < nextAddr s"
  shows "tick (snd (then' a f g s)) =
     snd (then' c (Reenter (nextAddr s) (BoundResolve (nextAddr s)) (BoundReject (nextAddr s)))
       (Bound (BoundReject (nextAddr s)))
       (logEvent (Invoked f Undefined (resultOf s a)) (snd (alloc s))))"
proof -
  let ?b = "nextAddr s"
  have a0: "(snd (alloc s))\<lparr>timers := []\<rparr> = snd (alloc s)"
    by (rule state_timers_nil) (simp add: alloc_def t)
  have r: "resultOf (snd (alloc s)) a = resultOf s a"
    using a by (simp add: resultOf_def alloc_def)
  have X: "snd (then' a f g s) =
      (snd (alloc s))\<lparr>timers := [FulfilledTask a f ?b (BoundResolve ?b) (BoundReject ?b)]\<rparr>"
    using t by (simp add: then'_fulfilled [OF a] alloc_def)
  show ?thesis
    unfolding X using c
    by (simp add: tick_def a0 runTask.simps r f rNP_promise)
qed

lemma ticks_Suc_right: "ticks (Suc n) s = tick (ticks n s)"
  by (induction n arbitrary: s) simp_all

lemma adoption_reached:
  assumes t: "timers s = []" and a: "a < nextAddr s" "stateOf s a = Some fulfilled"
    and f: "f = Function i gt [] (Return (ZPromise c))"
    and l: "links s n (ZPromise c) (ZPromise d)" and d: "d < nextAddr s" "heap s d = Some rd"
  shows "\<exists>s'. ticks (Suc n) (snd (then' a f g s)) =
           snd (then' d (Reenter (nextAddr s) (BoundResolve (nextAddr s)) (BoundReject (nextAddr s)))
             (Bound (BoundReject (nextAddr s))) s') \<and>
         timers s' = [] \<and> nextAddr s < nextAddr s' \<and> heap s' (nextAddr s) = Some fresh \<and>
         (\<forall>a'<nextAddr s. heap s' a' = heap s a')"
proof -
  let ?b = "nextAddr s"
  let ?K = "Reenter ?b (BoundResolve ?b) (BoundReject ?b)" and ?J = "Bound (BoundReject ?b)"
  define s1 where "s1 = logEvent (Invoked f Undefined (resultOf s a)) (snd (alloc s))"
  have s1: "timers s1 = []" "nextAddr s1 = Suc ?b" "heap s1 ?b = Some fresh"
    "\<forall>a'<nextAddr s. heap s1 a' = heap s a'"
    using t by (simp_all add: s1_def logEvent_def alloc_def)
  have c: "c < nextAddr s"
    using l d by (cases n) (auto split: option.splits)
  have start: "tick (snd (then' a f g s)) = snd (then' c ?K ?J s1)"
    unfolding s1_def by (rule reaction_returns_promise [OF t a f c])
  have l1: "links s1 n (ZPromise c) (ZPromise d)"
    by (rule links_agree [OF l]) (simp_all add: s1)
  have "\<exists>s'. ticks n (snd (then' c ?K ?J s1)) = snd (then' d ?K ?J s') \<and>
         timers s' = [] \<and> nextAddr s1 \<le> nextAddr s' \<and> events s' = events s1 \<and>
         (\<forall>a<nextAddr s1. heap s' a = heap s1 a)"
    by (rule unwind [where rb = fresh and rd = rd])
      (use s1 l1 d in \<open>simp_all add: fresh_def\<close>)
  then obtain s' where s': "ticks n (snd (then' c ?K ?J s1)) = snd (then' d ?K ?J s')"
    "timers s' = []" "nextAddr s1 \<le> nextAddr s'" "\<forall>a<nextAddr s1. heap s' a = heap s1 a"
    by blast
  have "ticks (Suc n) (snd (then' a f g s)) = snd (then' d ?K ?J s')"
    using s'(1) start by simp
  moreover have "heap s' ?b = Some fresh" using s'(4) s1 by simp
  moreover have "\<forall>a'<nextAddr s. heap s' a' = heap s a'" using s'(4) s1 by simp
  ultimately show ?thesis using s'(2,3) s1(2) by (intro exI [of _ s']) simp
qed

text \<open>
  C9. \<open>a\<close> is fulfilled, \<open>b\<close> is the promise that \<^verbatim>\<open>a.then(f)\<close> returns, and
  \<open>f\<close> returns the ZPromise \<open>c\<close>. Unwrapping \<open>c\<close> through \<open>n\<close> fulfilled promises
  gives \<open>y\<close>. With nothing else in the timers:
  \<^item> when \<open>y\<close> is no ZPromise and the Resolution Procedure settles with it (a
    primitive, an array, an object or function without a callable \<^verbatim>\<open>then\<close>, which
    all fulfil with \<open>y\<close> itself; a thenable, which gives what its \<^verbatim>\<open>then\<close> passes
    on), \<open>b\<close> is settled in that way after \<open>n + 1\<close> scheduler turns;
  \<^item> when \<open>y\<close> is a rejected promise, \<open>b\<close> is rejected with its reason after
    \<open>n + 2\<close> turns;
  \<^item> when \<open>y\<close> is a promise \<open>d\<close> that is still pending, \<open>b\<close> is pending after
    \<open>n + 1\<close> turns, and one turn after \<open>d\<close> is resolved with such a value \<open>w\<close>
    or rejected with \<open>e\<close>, \<open>b\<close> is settled as \<open>w\<close> settles or rejected with \<open>e\<close>.
\<close>

theorem nested_promises_unwrap:
  "timers s = [] \<longrightarrow> a < nextAddr s \<longrightarrow> stateOf s a = Some fulfilled \<longrightarrow>
   f = Function i gt [] (Return (ZPromise c)) \<longrightarrow> links s n (ZPromise c) y \<longrightarrow>
   (settlesAs y = Some (st, v) \<longrightarrow>
      heap (ticks (Suc n) (snd (then' a f g s))) (nextAddr s) =
        Some (fresh\<lparr>PromiseState := st, PromiseResult := v\<rparr>)) \<and>
   (y = ZPromise d \<longrightarrow> d < nextAddr s \<longrightarrow> stateOf s d = Some rejected \<longrightarrow>
      heap (ticks (Suc (Suc n)) (snd (then' a f g s))) (nextAddr s) =
        Some (fresh\<lparr>PromiseState := rejected, PromiseResult := resultOf s d\<rparr>)) \<and>
   (y = ZPromise d \<longrightarrow> d < nextAddr s \<longrightarrow> heap s d = Some rd \<longrightarrow> PromiseState rd = pending \<longrightarrow>
    onFulfilledCallbacks rd = [] \<longrightarrow> onRejectedCallbacks rd = [] \<longrightarrow>
      stateOf (ticks (Suc n) (snd (then' a f g s))) (nextAddr s) = Some pending \<and>
      (settlesAs w = Some (st, v) \<longrightarrow>
         heap (tick (resolve d w (ticks (Suc n) (snd (then' a f g s))))) (nextAddr s) =
           Some (fresh\<lparr>PromiseState := st, PromiseResult := v\<rparr>)) \<and>
      heap (tick (reject d e (ticks (Suc n) (snd (then' a f g s))))) (nextAddr s) =
        Some (fresh\<lparr>PromiseState := rejected, PromiseResult := e\<rparr>))"
proof (intro impI)
  assume t: "timers s = []" and a: "a < nextAddr s" "stateOf s a = Some fulfilled"
    and f: "f = Function i gt [] (Return (ZPromise c))" and l: "links s n (ZPromise c) y"
  let ?b = "nextAddr s"
  let ?K = "Reenter ?b (BoundResolve ?b) (BoundReject ?b)" and ?J = "Bound (BoundReject ?b)"
  let ?X = "snd (then' a f g s)"
  have fp: "PromiseState fresh = pending" by (simp add: fresh_def)
  have one: "heap (ticks (Suc n) ?X) ?b = Some (fresh\<lparr>PromiseState := st, PromiseResult := v\<rparr>)"
    if y: "settlesAs y = Some (st, v)"
  proof -
    from l settlesAs_not_promise [OF y, of c] obtain m where n: "n = Suc m"
      by (cases n) auto
    from links_last [OF l [unfolded n]]
    obtain d' where d': "links s m (ZPromise c) (ZPromise d')" "d' < nextAddr s"
      "stateOf s d' = Some fulfilled" "resultOf s d' = y"
      by blast
    from d'(3) obtain rd' where rd': "heap s d' = Some rd'" by (auto simp: stateOf_def)
    from adoption_reached [OF t a f d'(1,2) rd', of g]
    obtain s' where s': "ticks (Suc m) ?X = snd (then' d' ?K ?J s')"
      "timers s' = []" "nextAddr s < nextAddr s'" "heap s' ?b = Some fresh"
      "\<forall>a'<nextAddr s. heap s' a' = heap s a'"
      by blast
    have "stateOf s' d' = Some fulfilled" "resultOf s' d' = y"
      using s'(5) d' by (simp_all add: stateOf_def resultOf_def)
    with adopt_final [OF s'(2,3,4) fp, of d' st v] d'(2) s'(3) y
    have "heap (tick (snd (then' d' ?K ?J s'))) ?b =
        Some (fresh\<lparr>PromiseState := st, PromiseResult := v\<rparr>)"
      by simp
    then show ?thesis
      unfolding n ticks_Suc_right [of "Suc m"] s'(1) .
  qed
  have two: "heap (ticks (Suc (Suc n)) ?X) ?b =
        Some (fresh\<lparr>PromiseState := rejected, PromiseResult := resultOf s d\<rparr>)"
    if y: "y = ZPromise d" and d: "d < nextAddr s" "stateOf s d = Some rejected"
  proof -
    from d(2) obtain rd' where rd': "heap s d = Some rd'" by (auto simp: stateOf_def)
    from adoption_reached [OF t a f l [unfolded y] d(1) rd', of g]
    obtain s' where s': "ticks (Suc n) ?X = snd (then' d ?K ?J s')"
      "timers s' = []" "nextAddr s < nextAddr s'" "heap s' ?b = Some fresh"
      "\<forall>a'<nextAddr s. heap s' a' = heap s a'"
      by blast
    have "stateOf s' d = Some rejected" "resultOf s' d = resultOf s d"
      using s'(5) d by (simp_all add: stateOf_def resultOf_def)
    with adopt_rejected [OF s'(2,3,4) fp, of d] d(1) s'(3)
    have "heap (tick (snd (then' d ?K ?J s'))) ?b =
        Some (fresh\<lparr>PromiseState := rejected, PromiseResult := resultOf s d\<rparr>)"
      by simp
    then show ?thesis
      unfolding ticks_Suc_right [of "Suc n"] s'(1) .
  qed
  have three: "stateOf (ticks (Suc n) ?X) ?b = Some pending \<and>
      (settlesAs w = Some (st, v) \<longrightarrow>
         heap (tick (resolve d w (ticks (Suc n) ?X))) ?b =
           Some (fresh\<lparr>PromiseState := st, PromiseResult := v\<rparr>)) \<and>
      heap (tick (reject d e (ticks (Suc n) ?X))) ?b =
        Some (fresh\<lparr>PromiseState := rejected, PromiseResult := e\<rparr>)"
    if y: "y = ZPromise d" and d: "d < nextAddr s" "heap s d = Some rd" "PromiseState rd = pending"
      "onFulfilledCallbacks rd = []" "onRejectedCallbacks rd = []"
  proof -
    from adoption_reached [OF t a f l [unfolded y] d(1,2), of g]
    obtain s' where s': "ticks (Suc n) ?X = snd (then' d ?K ?J s')"
      "timers s' = []" "nextAddr s < nextAddr s'" "heap s' ?b = Some fresh"
      "\<forall>a'<nextAddr s. heap s' a' = heap s a'"
      by blast
    have d': "d < nextAddr s'" "heap s' d = Some rd" "d \<noteq> ?b"
      using s'(3,5) d by simp_all
    note T = adopt_pending [OF s'(2,3,4) fp d'(1,2) d(3) d'(3) d(4,5)]
    show ?thesis
      unfolding s'(1) using T by blast
  qed
  from one two three
  show "(settlesAs y = Some (st, v) \<longrightarrow>
      heap (ticks (Suc n) ?X) ?b =
        Some (fresh\<lparr>PromiseState := st, PromiseResult := v\<rparr>)) \<and>
   (y = ZPromise d \<longrightarrow> d < nextAddr s \<longrightarrow> stateOf s d = Some rejected \<longrightarrow>
      heap (ticks (Suc (Suc n)) ?X) ?b =
        Some (fresh\<lparr>PromiseState := rejected, PromiseResult := resultOf s d\<rparr>)) \<and>
   (y = ZPromise d \<longrightarrow> d < nextAddr s \<longrightarrow> heap s d = Some rd \<longrightarrow> PromiseState rd = pending \<longrightarrow>
    onFulfilledCallbacks rd = [] \<longrightarrow> onRejectedCallbacks rd = [] \<longrightarrow>
      stateOf (ticks (Suc n) ?X) ?b = Some pending \<and>
      (settlesAs w = Some (st, v) \<longrightarrow>
         heap (tick (resolve d w (ticks (Suc n) ?X))) ?b =
           Some (fresh\<lparr>PromiseState := st, PromiseResult := v\<rparr>)) \<and>
      heap (tick (reject d e (ticks (Suc n) ?X))) ?b =
        Some (fresh\<lparr>PromiseState := rejected, PromiseResult := e\<rparr>))"
    by blast
qed


lemma nestedState_fields:
  "heap nestedState 0 = Some (fresh\<lparr>PromiseState := fulfilled, PromiseResult := Number 1\<rparr>)"
  "heap nestedState 1 = Some fresh"
  "heap nestedState 2 = Some (fresh\<lparr>PromiseState := fulfilled, PromiseResult := ZPromise 1\<rparr>)"
  "nextAddr nestedState = 3"
  "timers nestedState = []"
  by (simp_all add: nestedState_def resolvesWith_def returns_def construct_def alloc_def init_def
      logEvent_def resolve_def fresh_def)

theorem nested_promises_unwrap_witness:
  "timers nestedState = [] \<and> 0 < nextAddr nestedState \<and> stateOf nestedState 0 = Some fulfilled \<and>
   links nestedState (Suc 0) (ZPromise 2) (ZPromise 1) \<and> 1 < nextAddr nestedState \<and>
   heap nestedState 1 = Some fresh \<and> PromiseState fresh = pending \<and>
   onFulfilledCallbacks fresh = [] \<and> onRejectedCallbacks fresh = [] \<and>
   settlesAs plainObject = Some (fulfilled, plainObject) \<and>
   heap (tick (resolve 1 plainObject
      (ticks (Suc (Suc 0)) (snd (then' 0 (returns 9 (ZPromise 2)) Undefined nestedState))))) 3 =
     Some (fresh\<lparr>PromiseState := fulfilled, PromiseResult := plainObject\<rparr>) \<and>
   settlesAs objectWithThen = Some (fulfilled, Number 5) \<and>
   heap (tick (resolve 1 objectWithThen
      (ticks (Suc (Suc 0)) (snd (then' 0 (returns 9 (ZPromise 2)) Undefined nestedState))))) 3 =
     Some (fresh\<lparr>PromiseState := fulfilled, PromiseResult := Number 5\<rparr>) \<and>
   heap (tick (reject 1 (String ''E'')
      (ticks (Suc (Suc 0)) (snd (then' 0 (returns 9 (ZPromise 2)) Undefined nestedState))))) 3 =
     Some (fresh\<lparr>PromiseState := rejected, PromiseResult := String ''E''\<rparr>) \<and>
   links nestedState (Suc 0) (ZPromise 0) (Number 1) \<and>
   settlesAs (Number 1) = Some (fulfilled, Number 1) \<and>
   heap (ticks (Suc (Suc 0)) (snd (then' 0 (returns 9 (ZPromise 0)) Undefined nestedState))) 3 =
     Some (fresh\<lparr>PromiseState := fulfilled, PromiseResult := Number 1\<rparr>)"
proof -
  have hyp: "timers nestedState = []" "0 < nextAddr nestedState"
    "stateOf nestedState 0 = Some fulfilled"
    "links nestedState (Suc 0) (ZPromise 2) (ZPromise 1)" "1 < nextAddr nestedState"
    "heap nestedState 1 = Some fresh" "PromiseState fresh = pending"
    "onFulfilledCallbacks fresh = []" "onRejectedCallbacks fresh = []"
    "settlesAs plainObject = Some (fulfilled, plainObject)"
    "settlesAs objectWithThen = Some (fulfilled, Number 5)"
    "links nestedState (Suc 0) (ZPromise 0) (Number 1)"
    "settlesAs (Number 1) = Some (fulfilled, Number 1)"
    "nextAddr nestedState = 3"
    using nestedState_fields
    by (simp_all add: stateOf_def resultOf_def fresh_def settlesAs_def plainObject_def
        objectWithThen_def readThen_def nonThenable_def)
  have f: "returns 9 (ZPromise c) = Function 9 (Gives Undefined) [] (Return (ZPromise c))" for c
    by (simp add: returns_def)
  from nested_promises_unwrap [where s = nestedState and a = 0 and f = "returns 9 (ZPromise 2)"
      and i = 9 and gt = "Gives Undefined" and c = 2 and n = "Suc 0" and y = "ZPromise 1"
      and d = 1 and rd = fresh and w = plainObject and st = fulfilled and v = plainObject
      and e = "String ''E''" and g = Undefined]
    nested_promises_unwrap [where s = nestedState and a = 0 and f = "returns 9 (ZPromise 2)"
      and i = 9 and gt = "Gives Undefined" and c = 2 and n = "Suc 0" and y = "ZPromise 1"
      and d = 1 and rd = fresh and w = objectWithThen and st = fulfilled and v = "Number 5"
      and g = Undefined]
    nested_promises_unwrap [where s = nestedState and a = 0 and f = "returns 9 (ZPromise 0)"
      and i = 9 and gt = "Gives Undefined" and c = 0 and n = "Suc 0" and y = "Number 1"
      and st = fulfilled and v = "Number 1" and g = Undefined]
    hyp f
  show ?thesis by simp
qed

subsection \<open>Chaining cycles\<close>

text \<open>
  When a reaction returns the very promise that its \<^verbatim>\<open>then\<close> call returned, the
  \<^verbatim>\<open>TypeError\<close> thrown at core.js:38 is caught at core.js:217 and that promise is
  rejected with it.
\<close>

lemma direct_cycle_rejects:
  assumes "heap s p = Some r" "PromiseState r = pending"
    "h = Function i g [] (Return (ZPromise p))"
  shows "heap (runTask (FulfilledTask a h p (BoundResolve p) (BoundReject p)) s) p =
     Some (r\<lparr>PromiseState := rejected,
              PromiseResult := TypeError ''Chaining cycle detected for promise''\<rparr>)"
  using assms
  by (simp add: runTask.simps rNP_self logEvent_def reject_def forEach_eq)

text \<open>
  C2 fails on the code when the target is reached indirectly. First run: promise 0 is
  fulfilled, \<^verbatim>\<open>p = a.then(() => ({ then(res) { res(p) } }))\<close> is promise 1. The
  \<^verbatim>\<open>TypeError\<close> is thrown inside the resolve continuation after \<^verbatim>\<open>called\<close> was
  set, so the catch block of core.js:88-98 returns without rejecting: after the
  scheduler has run, \<^verbatim>\<open>p\<close> is pending, no timer is left and nothing is queued on it.
  Second run: \<^verbatim>\<open>x\<close> is promise 1, pending; \<^verbatim>\<open>p = a.then(() => x)\<close> is promise 2;
  then \<^verbatim>\<open>x\<close> is resolved with \<^verbatim>\<open>p\<close>. The \<^verbatim>\<open>TypeError\<close> is caught by the reaction
  of \<^verbatim>\<open>x.then(...)\<close> (core.js:46, 256) and rejects the promise of that inner
  \<^verbatim>\<open>then\<close> call, promise 3; \<^verbatim>\<open>p\<close> stays pending with no timer left.
\<close>

theorem indirect_cycle_leaves_target_pending:
  "stateOf (steps [Then 0 (returns 3 resolvesSelf) Undefined, Tick, Tick] fulfilledOne) 1 =
     Some pending \<and>
   timers (steps [Then 0 (returns 3 resolvesSelf) Undefined, Tick, Tick] fulfilledOne) = [] \<and>
   map_option onFulfilledCallbacks
     (heap (steps [Then 0 (returns 3 resolvesSelf) Undefined, Tick, Tick] fulfilledOne) 1) = Some [] \<and>
   stateOf (steps [New (returns 0 Undefined), Then 0 (returns 3 (ZPromise 1)) Undefined, Tick,
       Call (Bound (BoundResolve 1)) (ZPromise 2), Tick, Tick] fulfilledOne) 2 = Some pending \<and>
   timers (steps [New (returns 0 Undefined), Then 0 (returns 3 (ZPromise 1)) Undefined, Tick,
       Call (Bound (BoundResolve 1)) (ZPromise 2), Tick, Tick] fulfilledOne) = [] \<and>
   heap (steps [New (returns 0 Undefined), Then 0 (returns 3 (ZPromise 1)) Undefined, Tick,
       Call (Bound (BoundResolve 1)) (ZPromise 2), Tick, Tick] fulfilledOne) 3 =
     Some (fresh\<lparr>PromiseState := rejected,
                  PromiseResult := TypeError ''Chaining cycle detected for promise''\<rparr>)"
  by code_simp

text \<open>
  C3 fails on the code for an object whose type tag is neither
  \<^verbatim>\<open>[object Object]\<close> nor \<^verbatim>\<open>[object Function]\<close>: a reaction returns an array that
  carries a callable \<^verbatim>\<open>then\<close>; the derived promise is fulfilled with the array itself
  and \<^verbatim>\<open>then\<close> is never read. A plain object with the same \<^verbatim>\<open>then\<close> is adopted.
\<close>

theorem array_with_then_is_not_adopted:
  "heap (steps [Then 0 (returns 9 arrayWithThen) Undefined, Tick] fulfilledOne) 1 =
     Some (fresh\<lparr>PromiseState := fulfilled, PromiseResult := arrayWithThen\<rparr>) \<and>
   ReadThen arrayWithThen \<notin>
     set (events (steps [Then 0 (returns 9 arrayWithThen) Undefined, Tick] fulfilledOne)) \<and>
   heap (steps [Then 0 (returns 9 objectWithThen) Undefined, Tick] fulfilledOne) 1 =
     Some (fresh\<lparr>PromiseState := fulfilled, PromiseResult := Number 5\<rparr>)"
  by code_simp


text \<open>
  In any state: a \<^verbatim>\<open>then\<close> that first calls its resolve continuation with the target
  leaves heap and timers as they were.
\<close>

lemma thenable_cycle_swallowed:
  assumes "x = Object j (Gives (Function i g (CallFst (ZPromise p) # rest) fin))"
    "list_all isContCall rest"
  shows "fst (resolveNextPromise p x res rej s) = Returned Undefined \<and>
     heap (snd (resolveNextPromise p x res rej s)) = heap s \<and>
     timers (snd (resolveNextPromise p x res rej s)) = timers s"
proof -
  have "resolveNextPromise p x res rej s =
     (Returned Undefined,
      snd (exec [CallFst (ZPromise p)] (Return Undefined) (OnInner (nextCell s) p res rej)
        (OnErr (nextCell s) rej)
        (logEvent (Invoked (Function i g (CallFst (ZPromise p) # rest) fin) x
            (OnInner (nextCell s) p res rej))
           (snd (newCell (logEvent (ReadThen x) s))))))"
    by (rule thenable_first_call) (use assms in \<open>simp_all add: readThen_def\<close>)
  then show ?thesis
    by (simp add: rNP_self logEvent_def newCell_def setCalled_def)
qed

text \<open>
  C10 fails on the code through the same two tag tests (core.js:47, 60) as C3. A
  reaction returns an array that carries a callable \<^verbatim>\<open>then\<close>: the property is never
  read, the trace has only the call of the reaction. A reaction returns an object
  whose \<^verbatim>\<open>then\<close> is an async function: \<^verbatim>\<open>typeof\<close> says it is a function, the
  property is read once, and the function read is never called; the derived promise is
  fulfilled with the object itself.
\<close>

theorem then_read_follows_type_tags:
  "events (steps [Then 0 (returns 9 arrayWithThen) Undefined, Tick] fulfilledOne) =
     events fulfilledOne @ [Invoked (returns 9 arrayWithThen) Undefined (Number 1)] \<and>
   typeof (TaggedFunction ''AsyncFunction'' 8 (Gives Undefined)
       [CallFst (Number 5)] (Return Undefined)) = ''function'' \<and>
   events (steps [Then 0 (returns 9 asyncThenable) Undefined, Tick] fulfilledOne) =
     events fulfilledOne @
       [Invoked (returns 9 asyncThenable) Undefined (Number 1), ReadThen asyncThenable] \<and>
   heap (steps [Then 0 (returns 9 asyncThenable) Undefined, Tick] fulfilledOne) 1 =
     Some (fresh\<lparr>PromiseState := fulfilled, PromiseResult := asyncThenable\<rparr>)"
  by code_simp

end
